theory Spec2Isabelle
  imports Complex_Main "HOL-Library.List_Lexorder" "HOL-Library.Char_ord"
begin

section \<open>Word counter\<close>

text \<open>
  \<^verbatim>\<open>count_words_in_xml\<close> of \<^verbatim>\<open>app.py\<close>. A Python \<^verbatim>\<open>str\<close> is a sequence of Unicode code
  points: a \<open>str\<close> is a list of natural numbers. \<open>ascii\<close> gives the text of a literal.
\<close>

type_synonym str = "nat list"

definition ascii :: "string \<Rightarrow> str" where
  "ascii s = map of_char s"

text \<open>
  Two things the word counter uses lie outside the repository. The markup parser
  (BeautifulSoup with the \<^verbatim>\<open>lxml-xml\<close> backend) is \<open>soup_get_text\<close>, which gives the text
  content of the document, or \<open>None\<close> where the parser (or anything else in the \<^verbatim>\<open>try\<close>
  block) raises. The Unicode character database, by which \<^verbatim>\<open>re\<close> decides whether a code
  point beyond ASCII is alphanumeric, is \<open>unicode_alnum\<close>.
\<close>

record libraries =
  soup_get_text :: "str \<Rightarrow> str option"
  unicode_alnum :: "nat \<Rightarrow> bool"

text \<open>
  \<^verbatim>\<open>\w\<close> in a \<^verbatim>\<open>str\<close> pattern: an alphanumeric code point or the underscore. Below 128 these
  are the digits (48 to 57), the capital letters (65 to 90), the underscore (95) and the
  small letters (97 to 122).
\<close>

definition word_char :: "(nat \<Rightarrow> bool) \<Rightarrow> nat \<Rightarrow> bool" where
  "word_char alnum c =
     (if c < 128
      then (48 \<le> c \<and> c \<le> 57) \<or> (65 \<le> c \<and> c \<le> 90) \<or> c = 95 \<or> (97 \<le> c \<and> c \<le> 122)
      else alnum c)"

text \<open>
  \<^verbatim>\<open>re.findall(r'\b\w+\b', text)\<close>: scanning from the left, a match starts at the first
  word character after a non-word character (or the start), and the greedy \<^verbatim>\<open>\w+\<close> runs to
  the end of that run of word characters, where the closing \<^verbatim>\<open>\b\<close> holds.
\<close>

function findall_words :: "(nat \<Rightarrow> bool) \<Rightarrow> str \<Rightarrow> str list" where
  "findall_words alnum [] = []"
| "findall_words alnum (c # cs) =
     (if word_char alnum c
      then (c # takeWhile (word_char alnum) cs)
             # findall_words alnum (dropWhile (word_char alnum) cs)
      else findall_words alnum cs)"
  by pat_completeness auto
termination
  by (relation "measure (\<lambda>(alnum, cs). length cs)")
    (auto simp: length_dropWhile_le less_Suc_eq_le)

text \<open>
  \<^verbatim>\<open>re.sub(r'<[^>]+>', ' ', xml_content)\<close>: a match starts at a \<^verbatim>\<open><\<close> (code point 60) that
  is followed by at least one character other than \<^verbatim>\<open>>\<close> (62) and, after those, by a
  \<^verbatim>\<open>>\<close>; it is replaced by one space (32). A \<^verbatim>\<open><\<close> with no such continuation is copied.
\<close>

function sub_tags :: "str \<Rightarrow> str" where
  "sub_tags [] = []"
| "sub_tags (c # cs) =
     (if c = 60 \<and> takeWhile (\<lambda>x. x \<noteq> 62) cs \<noteq> [] \<and> dropWhile (\<lambda>x. x \<noteq> 62) cs \<noteq> []
      then 32 # sub_tags (tl (dropWhile (\<lambda>x. x \<noteq> 62) cs))
      else c # sub_tags cs)"
  by pat_completeness auto
termination
proof (relation "measure length")
  show "wf (measure (length :: str \<Rightarrow> nat))" by simp
next
  fix c :: nat and cs :: str
  assume "c = 60 \<and> takeWhile (\<lambda>x. x \<noteq> 62) cs \<noteq> [] \<and> dropWhile (\<lambda>x. x \<noteq> 62) cs \<noteq> []"
  have "length (tl (dropWhile (\<lambda>x. x \<noteq> 62) cs)) \<le> length cs"
    using length_dropWhile_le [of "\<lambda>x. x \<noteq> 62" cs] by simp
  then show "(tl (dropWhile (\<lambda>x. x \<noteq> 62) cs), c # cs) \<in> measure length"
    by simp
next
  fix c :: nat and cs :: str
  show "(cs, c # cs) \<in> measure length" by simp
qed

text \<open>
  \<^verbatim>\<open>count_words_in_xml\<close>. The argument is \<open>None\<close> for Python's \<^verbatim>\<open>None\<close>. The \<^verbatim>\<open>except\<close> branch
  is the second case of the parser's result.
\<close>

definition count_words_in_xml :: "libraries \<Rightarrow> str option \<Rightarrow> int" where
  "count_words_in_xml libs xml_content =
     (case xml_content of
        None \<Rightarrow> 0
      | Some s \<Rightarrow>
          if s = [] then 0
          else (case soup_get_text libs s of
                  Some text \<Rightarrow> int (length (findall_words (unicode_alnum libs) text))
                | None \<Rightarrow> int (length (findall_words (unicode_alnum libs) (sub_tags s)))))"

text \<open>
  The word count of the specification, to compare with: the number of maximal runs of
  word characters, that is, the number of places of the text that hold a word character
  and are not preceded by one. In \<open>run_starts_from\<close> the text follows a character, and
  \<open>prev\<close> tells whether that one is a word character.
\<close>

definition run_starts_from :: "(nat \<Rightarrow> bool) \<Rightarrow> bool \<Rightarrow> str \<Rightarrow> nat" where
  "run_starts_from alnum prev s =
     length (filter (\<lambda>i. word_char alnum (s ! i)
                          \<and> \<not> (if i = 0 then prev else word_char alnum (s ! (i - 1))))
               [0 ..< length s])"

definition run_starts :: "(nat \<Rightarrow> bool) \<Rightarrow> str \<Rightarrow> nat" where
  "run_starts alnum s = run_starts_from alnum False s"

section \<open>Python values and dictionaries\<close>

text \<open>
  A title entry of a \<^verbatim>\<open>cfr_references\<close> item is a JSON value: an integer or a string.
  Python never finds an integer equal to a string, which the two constructors give.
\<close>

datatype pyval = PInt int | PStr string

definition digit_char :: "nat \<Rightarrow> char" where
  "digit_char d = ''0123456789'' ! d"

function str_nat :: "nat \<Rightarrow> string" where
  "str_nat n = (if n < 10 then [digit_char n] else str_nat (n div 10) @ [digit_char (n mod 10)])"
  by pat_completeness auto
termination
  by (relation "measure id") auto

declare str_nat.simps [simp del]

definition str_int :: "int \<Rightarrow> string" where
  "str_int i = (if i < 0 then CHR ''-'' # str_nat (nat (- i)) else str_nat (nat i))"

text \<open>\<^verbatim>\<open>str(v)\<close>.\<close>

fun py_str :: "pyval \<Rightarrow> string" where
  "py_str (PInt i) = str_int i"
| "py_str (PStr s) = s"

text \<open>
  A \<^verbatim>\<open>dict\<close> is an association list with distinct keys in insertion order: assigning to a
  key that is present keeps its place, a new key goes to the end. A \<^verbatim>\<open>set\<close> is a list
  without duplicates, in the order of insertion; Python leaves the order in which a set is
  traversed open.
\<close>

fun dict_set :: "'k \<Rightarrow> 'v \<Rightarrow> ('k \<times> 'v) list \<Rightarrow> ('k \<times> 'v) list" where
  "dict_set k v [] = [(k, v)]"
| "dict_set k v ((k', v') # d) = (if k = k' then (k, v) # d else (k', v') # dict_set k v d)"

definition dict_get :: "('k \<times> 'v) list \<Rightarrow> 'k \<Rightarrow> 'v \<Rightarrow> 'v" where
  "dict_get d k dflt = (case map_of d k of None \<Rightarrow> dflt | Some v \<Rightarrow> v)"

definition set_add :: "'a \<Rightarrow> 'a list \<Rightarrow> 'a list" where
  "set_add x xs = (if x \<in> set xs then xs else xs @ [x])"

section \<open>Agencies, titles and the ownership index\<close>

text \<open>
  An agency of the catalog. An item of \<^verbatim>\<open>cfr_references\<close> is its \<^verbatim>\<open>title\<close> entry, \<open>None\<close>
  when the item has no such key. A missing \<^verbatim>\<open>cfr_references\<close> or \<^verbatim>\<open>children\<close> key is the
  empty list: the code treats both alike.
\<close>

datatype agency =
  Agency (name: string) (slug: string) (cfr_references: "pyval option list")
    (children: "agency list")

text \<open>A calendar date: year, month, day.\<close>

datatype date = Date nat nat nat

record title_info =
  number :: int
  title_name :: string
  latest_amended_on :: date
  reserved :: bool

text \<open>The inner loop of \<^verbatim>\<open>create_agency_title_mapping\<close> over one agency's references.\<close>

definition add_title :: "string \<Rightarrow> pyval \<Rightarrow> (string \<times> pyval list) list \<Rightarrow> (string \<times> pyval list) list" where
  "add_title agency_name t d = dict_set agency_name (set_add t (dict_get d agency_name [])) d"

definition add_references ::
  "string \<Rightarrow> pyval option list \<Rightarrow> (string \<times> pyval list) list \<Rightarrow> (string \<times> pyval list) list" where
  "add_references agency_name refs d =
     fold (\<lambda>ref d'. case ref of None \<Rightarrow> d' | Some t \<Rightarrow> add_title agency_name t d') refs d"

text \<open>
  \<^verbatim>\<open>create_agency_title_mapping\<close>: for each agency of the list its own references, then the
  references of each of its children.
\<close>

definition create_agency_title_mapping :: "agency list \<Rightarrow> (string \<times> pyval list) list" where
  "create_agency_title_mapping agencies =
     fold (\<lambda>agency d.
             fold (\<lambda>child d'. add_references (name child) (cfr_references child) d')
               (children agency)
               (add_references (name agency) (cfr_references agency) d))
       agencies []"

text \<open>
  The reverse mapping \<^verbatim>\<open>title_to_agencies\<close>, a \<^verbatim>\<open>defaultdict(list)\<close> filled by the two
  nested loops over \<^verbatim>\<open>agency_to_titles.items()\<close>.
\<close>

definition append_agency :: "string \<Rightarrow> pyval \<Rightarrow> (pyval \<times> string list) list \<Rightarrow> (pyval \<times> string list) list" where
  "append_agency a t d = dict_set t (dict_get d t [] @ [a]) d"

definition reverse_mapping :: "(string \<times> pyval list) list \<Rightarrow> (pyval \<times> string list) list" where
  "reverse_mapping agency_to_titles =
     fold (\<lambda>(a, titles) d. fold (append_agency a) titles d) agency_to_titles []"

section \<open>Floating-point numbers\<close>

text \<open>
  A Python \<^verbatim>\<open>float\<close> is an IEEE 754 double: a rational number \<open>m * 2 ^ e\<close> with a
  significand \<open>m\<close> of at most 53 bits. The result of a division, an addition or a
  multiplication is the exact result rounded to the nearest double, a tie going to the
  even significand. The word counts, quotients and percentages of the program are far
  from the largest and the smallest doubles, so the range of the exponent is not
  bounded here.
\<close>

text \<open>The nearest integer, a tie going to the even one.\<close>

definition rne :: "rat \<Rightarrow> int" where
  "rne y =
     (let f = \<lfloor>y\<rfloor>; r = y - of_int f
      in if r < 1 / 2 then f else if 1 / 2 < r then f + 1 else if even f then f else f + 1)"

text \<open>
  The binary exponent of a positive number, \<open>2 ^ e \<le> x < 2 ^ (e + 1)\<close>: by halving a number
  from 2 on, and by doubling a number below 1.
\<close>

function up_log :: "rat \<Rightarrow> nat" where
  "up_log x = (if 2 \<le> x then Suc (up_log (x / 2)) else 0)"
  by pat_completeness auto
termination
proof (relation "measure (\<lambda>x. nat \<lfloor>x\<rfloor>)")
  show "wf (measure (\<lambda>x :: rat. nat \<lfloor>x\<rfloor>))" by simp
next
  fix x :: rat
  assume x: "2 \<le> x"
  have "x / 2 < of_int \<lfloor>x\<rfloor>"
  proof -
    have "x < of_int \<lfloor>x\<rfloor> + 1" by linarith
    moreover have "(2 :: rat) \<le> of_int \<lfloor>x\<rfloor>" using x by (simp add: le_floor_iff)
    ultimately show ?thesis by linarith
  qed
  then have "\<lfloor>x / 2\<rfloor> < \<lfloor>x\<rfloor>" by (simp add: floor_less_iff)
  moreover have "0 < \<lfloor>x\<rfloor>" using x by (simp add: less_floor_iff)
  ultimately show "(x / 2, x) \<in> measure (\<lambda>x. nat \<lfloor>x\<rfloor>)" by simp
qed

function down_log :: "rat \<Rightarrow> nat" where
  "down_log x = (if 0 < x \<and> x < 1 then Suc (down_log (2 * x)) else 0)"
  by pat_completeness auto
termination
proof (relation "measure (\<lambda>x. nat \<lfloor>1 / x\<rfloor>)")
  show "wf (measure (\<lambda>x :: rat. nat \<lfloor>1 / x\<rfloor>))" by simp
next
  fix x :: rat
  assume x: "0 < x \<and> x < 1"
  define y where "y = 1 / x"
  have y: "1 < y" using x by (simp add: y_def)
  have "y / 2 < of_int \<lfloor>y\<rfloor>"
  proof -
    have "y < of_int \<lfloor>y\<rfloor> + 1" by linarith
    moreover have "(1 :: rat) \<le> of_int \<lfloor>y\<rfloor>" using y by (simp add: le_floor_iff)
    ultimately show ?thesis by linarith
  qed
  then have "\<lfloor>y / 2\<rfloor> < \<lfloor>y\<rfloor>" by (simp add: floor_less_iff)
  moreover have "0 < \<lfloor>y\<rfloor>" using y by (simp add: less_floor_iff)
  moreover have "1 / (2 * x) = y / 2" by (simp add: y_def)
  ultimately have "\<lfloor>1 / (2 * x)\<rfloor> < \<lfloor>1 / x\<rfloor>" "0 < \<lfloor>1 / x\<rfloor>" by (simp_all only: y_def)
  then show "(2 * x, x) \<in> measure (\<lambda>x. nat \<lfloor>1 / x\<rfloor>)" by simp
qed

declare up_log.simps [simp del]
declare down_log.simps [simp del]

definition ilog2 :: "rat \<Rightarrow> int" where
  "ilog2 x = (if 1 \<le> x then int (up_log x) else - int (down_log x))"

text \<open>
  The double nearest to a rational number: its quotient by the unit in the last place
  is rounded to an integer.
\<close>

definition fl :: "rat \<Rightarrow> rat" where
  "fl x = (if x = 0 then 0
           else let ulp = 2 powi (ilog2 \<bar>x\<bar> - 52) in of_int (rne (x / ulp)) * ulp)"

text \<open>The largest relative error of rounding to the nearest double.\<close>

definition unit_roundoff :: rat where
  "unit_roundoff = 1 / 2 ^ 53"

text \<open>\<^verbatim>\<open>x / y\<close>, \<^verbatim>\<open>x + y\<close> and \<^verbatim>\<open>x * y\<close> where the result is a \<^verbatim>\<open>float\<close>.\<close>

definition fdiv :: "rat \<Rightarrow> rat \<Rightarrow> rat" where
  "fdiv x y = fl (x / y)"

definition fadd :: "rat \<Rightarrow> rat \<Rightarrow> rat" where
  "fadd x y = fl (x + y)"

definition fmul :: "rat \<Rightarrow> rat \<Rightarrow> rat" where
  "fmul x y = fl (x * y)"

section \<open>Attribution\<close>

text \<open>
  The loop that distributes the word count of each title over its agencies:
  \<^verbatim>\<open>count_per_agency = word_count / len(agencies_for_title)\<close> is a division of two
  integers with a \<^verbatim>\<open>float\<close> result, and \<^verbatim>\<open>agency_word_counts[agency] += count_per_agency\<close>
  an addition of doubles (the first time, of the integer 0 of the \<^verbatim>\<open>defaultdict\<close> and a
  double).
\<close>

definition add_count :: "string \<Rightarrow> rat \<Rightarrow> (string \<times> rat) list \<Rightarrow> (string \<times> rat) list" where
  "add_count a x d = dict_set a (fadd (dict_get d a 0) x) d"

definition attribute_title ::
  "(pyval \<times> string list) list \<Rightarrow> int \<times> int \<Rightarrow> (string \<times> rat) list \<Rightarrow> (string \<times> rat) list" where
  "attribute_title title_to_agencies tw acc =
     (let agencies_for_title = dict_get title_to_agencies (PInt (fst tw)) []
      in if agencies_for_title \<noteq> []
         then let count_per_agency = fdiv (of_int (snd tw)) (of_nat (length agencies_for_title))
              in fold (\<lambda>a acc'. add_count a count_per_agency acc') agencies_for_title acc
         else acc)"

definition attribute :: "(int \<times> int) list \<Rightarrow> (pyval \<times> string list) list \<Rightarrow> (string \<times> rat) list" where
  "attribute title_word_counts title_to_agencies =
     fold (attribute_title title_to_agencies) title_word_counts []"

text \<open>
  The attribution of the specification, to compare with: the same loop in exact
  arithmetic, where each owner receives \<open>wc / k\<close>.
\<close>

definition add_count_exact :: "string \<Rightarrow> rat \<Rightarrow> (string \<times> rat) list \<Rightarrow> (string \<times> rat) list" where
  "add_count_exact a x d = dict_set a (dict_get d a 0 + x) d"

definition attribute_title_exact ::
  "(pyval \<times> string list) list \<Rightarrow> int \<times> int \<Rightarrow> (string \<times> rat) list \<Rightarrow> (string \<times> rat) list" where
  "attribute_title_exact title_to_agencies tw acc =
     (let agencies_for_title = dict_get title_to_agencies (PInt (fst tw)) []
      in if agencies_for_title \<noteq> []
         then let count_per_agency = of_int (snd tw) / of_nat (length agencies_for_title)
              in fold (\<lambda>a acc'. add_count_exact a count_per_agency acc') agencies_for_title acc
         else acc)"

definition attribute_exact ::
  "(int \<times> int) list \<Rightarrow> (pyval \<times> string list) list \<Rightarrow> (string \<times> rat) list" where
  "attribute_exact title_word_counts title_to_agencies =
     fold (attribute_title_exact title_to_agencies) title_word_counts []"

text \<open>
  What a dictionary of sets is as a list: no key twice, no element twice in a value.
\<close>

definition dict_ok :: "('k \<times> 'v list) list \<Rightarrow> bool" where
  "dict_ok d = (distinct (map fst d) \<and> (\<forall>p \<in> set d. distinct (snd p)))"

text \<open>Reading a decimal numeral back, digit by digit.\<close>

definition digit_val :: "char \<Rightarrow> nat" where
  "digit_val c = of_char c - 48"

definition val_of :: "string \<Rightarrow> nat" where
  "val_of s = foldl (\<lambda>a c. 10 * a + digit_val c) 0 s"

section \<open>Retrieval layer\<close>

text \<open>
  The outcome of one \<^verbatim>\<open>requests.get\<close>: a response with its status code and body text, the
  exception \<^verbatim>\<open>requests.exceptions.Timeout\<close>, or any other exception. A request is one of
  the three URLs the code builds; the title URL is determined by the title number and
  the date.
\<close>

datatype response = Response int str | Timeout | RequestError

datatype request = AgenciesJson | TitlesJson | TitleXml int date

text \<open>
  The remote service: the answer to the \<open>i\<close>-th request of the session. An upstream that
  never changes is one that ignores \<open>i\<close>.
\<close>

type_synonym upstream = "nat \<Rightarrow> request \<Rightarrow> response"

definition immutable :: "upstream \<Rightarrow> bool" where
  "immutable up = (\<forall>i j r. up i r = up j r)"

text \<open>
  The module globals that \<^verbatim>\<open>main\<close> sets from the sidebar. \<open>max_titles\<close> is the value of
  a slider from 1 to 50.
\<close>

record config =
  max_titles :: nat
  target_date :: date
  skip_problematic_titles :: bool
  request_timeout :: int
  throttle_delay :: rat
  cache_results :: bool

text \<open>
  The result of one snapshot analysis, as the code keeps it in the session. The three
  tables shown (all agencies, senior agencies, titles) are computed from these fields
  alone.
\<close>

record snapshot_result =
  res_agencies :: "agency list"
  res_titles_info :: "title_info list"
  res_title_word_counts :: "(int \<times> int) list"
  res_agency_word_counts :: "(string \<times> rat) list"

text \<open>
  The parameters that make the snapshot's cache key:
  \<^verbatim>\<open>max_titles, target_date_str, skip_problematic_titles, request_timeout, throttle_delay\<close>.
\<close>

type_synonym snapshot_key = "nat \<times> date \<times> bool \<times> int \<times> rat"

definition agency_analysis_key :: "config \<Rightarrow> snapshot_key" where
  "agency_analysis_key cfg =
     (max_titles cfg, target_date cfg, skip_problematic_titles cfg, request_timeout cfg,
      throttle_delay cfg)"

text \<open>
  \<^verbatim>\<open>st.session_state\<close>, one field for each family of keys: \<^verbatim>\<open>agencies_cache\<close>,
  \<^verbatim>\<open>titles_cache\<close>, \<^verbatim>\<open>title_content_{title_number}_{date}\<close>, the snapshot's
  \<^verbatim>\<open>cache_key\<close> itself (\<open>analysis_marks\<close>) and the entries \<^verbatim>\<open>{cache_key}_agencies\<close> to
  \<^verbatim>\<open>{cache_key}_agency_word_counts\<close>, which are written and read together
  (\<open>analysis_results\<close>). \<open>requests_log\<close> is not in the program: it records the network
  requests made so far, in order.
\<close>

record session =
  agencies_cache :: "agency list option"
  titles_cache :: "title_info list option"
  title_content_cache :: "int \<times> date \<Rightarrow> str option"
  analysis_marks :: "snapshot_key \<Rightarrow> bool"
  analysis_results :: "snapshot_key \<Rightarrow> snapshot_result option"
  requests_log :: "request list"

definition fresh_session :: session where
  "fresh_session =
     \<lparr>agencies_cache = None, titles_cache = None, title_content_cache = (\<lambda>k. None),
      analysis_marks = (\<lambda>k. False), analysis_results = (\<lambda>k. None), requests_log = []\<rparr>"

text \<open>Sending a request: the upstream answers, and the request is logged.\<close>

definition send :: "upstream \<Rightarrow> request \<Rightarrow> session \<Rightarrow> response \<times> session" where
  "send up r s = (up (length (requests_log s)) r, s\<lparr>requests_log := requests_log s @ [r]\<rparr>)"

text \<open>
  \<^verbatim>\<open>get_agencies\<close> and \<^verbatim>\<open>get_titles\<close>. Decoding the JSON body is the parameter
  \<open>decode\<close>: \<open>None\<close> where \<^verbatim>\<open>response.json()\<close> raises, and the list under the key
  (\<open>[]\<close> without the key) otherwise.
\<close>

definition get_agencies ::
  "upstream \<Rightarrow> (str \<Rightarrow> agency list option) \<Rightarrow> config \<Rightarrow> bool \<Rightarrow> session
     \<Rightarrow> agency list \<times> session" where
  "get_agencies up decode cfg force_refresh s =
     (if \<not> force_refresh \<and> cache_results cfg \<and> agencies_cache s \<noteq> None
      then (the (agencies_cache s), s)
      else (case send up AgenciesJson s of
              (Response code body, s') \<Rightarrow>
                if code = 200
                then (case decode body of
                        Some agencies \<Rightarrow>
                          (agencies,
                           if cache_results cfg then s'\<lparr>agencies_cache := Some agencies\<rparr> else s')
                      | None \<Rightarrow> ([], s'))
                else ([], s')
            | (Timeout, s') \<Rightarrow> ([], s')
            | (RequestError, s') \<Rightarrow> ([], s')))"

definition get_titles ::
  "upstream \<Rightarrow> (str \<Rightarrow> title_info list option) \<Rightarrow> config \<Rightarrow> bool \<Rightarrow> session
     \<Rightarrow> title_info list \<times> session" where
  "get_titles up decode cfg force_refresh s =
     (if \<not> force_refresh \<and> cache_results cfg \<and> titles_cache s \<noteq> None
      then (the (titles_cache s), s)
      else (case send up TitlesJson s of
              (Response code body, s') \<Rightarrow>
                if code = 200
                then (case decode body of
                        Some titles \<Rightarrow>
                          (titles,
                           if cache_results cfg then s'\<lparr>titles_cache := Some titles\<rparr> else s')
                      | None \<Rightarrow> ([], s'))
                else ([], s')
            | (Timeout, s') \<Rightarrow> ([], s')
            | (RequestError, s') \<Rightarrow> ([], s')))"

text \<open>
  The \<^verbatim>\<open>while retries <= max_retries\<close> loop of \<^verbatim>\<open>get_title_content\<close>. Status 504 and a
  timeout count a retry and go round again while retries remain; status 200 returns
  the text (and caches it); everything else returns \<open>None\<close>. When the loop condition
  fails at the start, the function falls off its end and returns \<open>None\<close>.
\<close>

function fetch_title ::
  "upstream \<Rightarrow> config \<Rightarrow> int \<Rightarrow> date \<Rightarrow> int \<Rightarrow> int \<Rightarrow> session \<Rightarrow> str option \<times> session" where
  "fetch_title up cfg title_number dt max_retries retries s =
     (if retries \<le> max_retries
      then (case send up (TitleXml title_number dt) s of
              (Response code body, s') \<Rightarrow>
                if code = 200
                then (Some body,
                      if cache_results cfg
                      then s'\<lparr>title_content_cache :=
                                (title_content_cache s')((title_number, dt) \<mapsto> body)\<rparr>
                      else s')
                else if code = 504
                then (if retries + 1 \<le> max_retries
                      then fetch_title up cfg title_number dt max_retries (retries + 1) s'
                      else (None, s'))
                else if code = 404 then (None, s')
                else (None, s')
            | (Timeout, s') \<Rightarrow>
                if retries + 1 \<le> max_retries
                then fetch_title up cfg title_number dt max_retries (retries + 1) s'
                else (None, s')
            | (RequestError, s') \<Rightarrow> (None, s'))
      else (None, s))"
  by pat_completeness auto
termination
  by (relation "measure (\<lambda>(up, cfg, title_number, dt, max_retries, retries, s).
                           nat (max_retries + 1 - retries))") auto

declare fetch_title.simps [simp del]

definition problematic_titles :: "int list" where
  "problematic_titles = [7, 10, 40, 42, 45]"

text \<open>\<^verbatim>\<open>get_title_content\<close>: the session cache first, then the skip list, then the network.\<close>

definition get_title_content ::
  "upstream \<Rightarrow> config \<Rightarrow> int \<Rightarrow> date \<Rightarrow> int \<Rightarrow> bool \<Rightarrow> session \<Rightarrow> str option \<times> session" where
  "get_title_content up cfg title_number dt max_retries force_refresh s =
     (if \<not> force_refresh \<and> cache_results cfg \<and> title_content_cache s (title_number, dt) \<noteq> None
      then (title_content_cache s (title_number, dt), s)
      else if skip_problematic_titles cfg \<and> title_number \<in> set problematic_titles
      then (None, s)
      else fetch_title up cfg title_number dt max_retries 0 s)"

text \<open>
  What a call of \<^verbatim>\<open>get_title_content\<close> for a title and a date does to the session: it
  makes some number \<open>k\<close> of requests for that title and date, and it caches the text it
  returns if caching is on.
\<close>

definition after_fetch :: "config \<Rightarrow> int \<Rightarrow> date \<Rightarrow> str option \<Rightarrow> nat \<Rightarrow> session \<Rightarrow> session" where
  "after_fetch cfg n d res k s =
     s\<lparr>title_content_cache :=
         (if cache_results cfg \<and> res \<noteq> None
          then (title_content_cache s)((n, d) := res) else title_content_cache s),
       requests_log := requests_log s @ replicate k (TitleXml n d)\<rparr>"

text \<open>
  What an upstream that never changes gives for a title and a date when the retries are
  used up: the text of a response with status 200, and \<open>None\<close> for everything else.
\<close>

definition upstream_content :: "upstream \<Rightarrow> int \<Rightarrow> date \<Rightarrow> str option" where
  "upstream_content up n d =
     (case up 0 (TitleXml n d) of
        Response code body \<Rightarrow> if code = 200 then Some body else None
      | Timeout \<Rightarrow> None
      | RequestError \<Rightarrow> None)"

section \<open>The three analyses\<close>

text \<open>
  Dates are compared as \<^verbatim>\<open>datetime\<close> values: year, then month, then day.
\<close>

definition date_less :: "date \<Rightarrow> date \<Rightarrow> bool" where
  "date_less a b =
     (case a of Date y m d \<Rightarrow> case b of Date y' m' d' \<Rightarrow>
        y < y' \<or> (y = y' \<and> (m < m' \<or> (m = m' \<and> d < d'))))"

definition use_date :: "date \<Rightarrow> date \<Rightarrow> date" where
  "use_date target latest = (if date_less latest target then latest else target)"

text \<open>\<^verbatim>\<open>if title_content:\<close> holds for a text that is neither \<^verbatim>\<open>None\<close> nor empty.\<close>

definition truthy :: "str option \<Rightarrow> bool" where
  "truthy content = (case content of None \<Rightarrow> False | Some s \<Rightarrow> s \<noteq> [])"

text \<open>
  The state of a loop over titles: the dictionary \<^verbatim>\<open>title_word_counts\<close>, the dictionary
  \<^verbatim>\<open>title_fetch_errors\<close> (composition only) and the session. \<open>fetched\<close> is not in the
  program: it records each call of \<^verbatim>\<open>get_title_content\<close> with its result, in order.
\<close>

record run_state =
  word_counts :: "(int \<times> int) list"
  fetch_errors :: "(int \<times> string) list"
  fetched :: "(int \<times> date \<times> str option) list"
  sess :: session

definition start_run :: "session \<Rightarrow> run_state" where
  "start_run s = \<lparr>word_counts = [], fetch_errors = [], fetched = [], sess = s\<rparr>"

text \<open>
  The body of the loop over titles in the snapshot (with \<^verbatim>\<open>force_refresh=not cache_results\<close>)
  and in \<^verbatim>\<open>calculate_word_counts_over_time\<close> (with the default \<^verbatim>\<open>force_refresh=False\<close>).
\<close>

definition process_title ::
  "upstream \<Rightarrow> config \<Rightarrow> libraries \<Rightarrow> date \<Rightarrow> bool \<Rightarrow> title_info
     \<Rightarrow> run_state \<Rightarrow> run_state" where
  "process_title up cfg libs target force_refresh ti st =
     (if reserved ti then st
      else (case get_title_content up cfg (number ti) (use_date target (latest_amended_on ti))
                   1 force_refresh (sess st) of
              (title_content, s') \<Rightarrow>
                st\<lparr>word_counts :=
                     (if truthy title_content
                      then dict_set (number ti) (count_words_in_xml libs title_content)
                             (word_counts st)
                      else word_counts st),
                   fetched := fetched st
                     @ [(number ti, use_date target (latest_amended_on ti), title_content)],
                   sess := s'\<rparr>))"

text \<open>
  The body of the loop in the composition analysis: as above, and a title without
  content is entered in \<^verbatim>\<open>title_fetch_errors\<close>. The \<^verbatim>\<open>except\<close> branch is never taken:
  \<^verbatim>\<open>get_title_content\<close> and \<^verbatim>\<open>count_words_in_xml\<close> catch every exception themselves.
\<close>

definition process_title_composition ::
  "upstream \<Rightarrow> config \<Rightarrow> libraries \<Rightarrow> date \<Rightarrow> title_info
     \<Rightarrow> run_state \<Rightarrow> run_state" where
  "process_title_composition up cfg libs target ti st =
     (if reserved ti then st
      else (case get_title_content up cfg (number ti) (use_date target (latest_amended_on ti))
                   1 (\<not> cache_results cfg) (sess st) of
              (title_content, s') \<Rightarrow>
                st\<lparr>word_counts :=
                     (if truthy title_content
                      then dict_set (number ti) (count_words_in_xml libs title_content)
                             (word_counts st)
                      else word_counts st),
                   fetch_errors :=
                     (if truthy title_content then fetch_errors st
                      else dict_set (number ti) ''No content received'' (fetch_errors st)),
                   fetched := fetched st
                     @ [(number ti, use_date target (latest_amended_on ti), title_content)],
                   sess := s'\<rparr>))"

subsection \<open>Snapshot\<close>

text \<open>
  The loop over \<^verbatim>\<open>titles_info[:process_size]\<close> with
  \<^verbatim>\<open>process_size = min(max_titles, len(titles_info))\<close>.
\<close>

definition process_titles ::
  "upstream \<Rightarrow> config \<Rightarrow> libraries \<Rightarrow> date \<Rightarrow> bool \<Rightarrow> nat
     \<Rightarrow> title_info list \<Rightarrow> session \<Rightarrow> run_state" where
  "process_titles up cfg libs target force_refresh cap titles_info s =
     fold (process_title up cfg libs target force_refresh)
       (take (min cap (length titles_info)) titles_info) (start_run s)"

text \<open>
  The computation behind the button of the first tab, when the cached result is not
  used: fetch the agencies and the titles, build the index, count the words of the
  titles, attribute them, and keep the result under the cache key if caching is on.
  The key \<^verbatim>\<open>cache_key\<close> itself is never written.
\<close>

definition snapshot_compute ::
  "upstream \<Rightarrow> (str \<Rightarrow> agency list option) \<Rightarrow> (str \<Rightarrow> title_info list option) \<Rightarrow> config
     \<Rightarrow> libraries \<Rightarrow> session \<Rightarrow> snapshot_result \<times> session" where
  "snapshot_compute up decode_agencies decode_titles cfg libs s =
     (case get_agencies up decode_agencies cfg (\<not> cache_results cfg) s of
        (agencies, s1) \<Rightarrow>
     (case get_titles up decode_titles cfg (\<not> cache_results cfg) s1 of
        (titles_info, s2) \<Rightarrow>
     (let title_to_agencies = reverse_mapping (create_agency_title_mapping agencies);
          st = process_titles up cfg libs (target_date cfg) (\<not> cache_results cfg)
                 (max_titles cfg) titles_info s2;
          res = \<lparr>res_agencies = agencies, res_titles_info = titles_info,
                 res_title_word_counts = word_counts st,
                 res_agency_word_counts = attribute (word_counts st) title_to_agencies\<rparr>
      in (res,
          if cache_results cfg
          then (sess st)\<lparr>analysis_results :=
                           (analysis_results (sess st))(agency_analysis_key cfg \<mapsto> res)\<rparr>
          else sess st))))"

text \<open>
  The button of the first tab. With caching on and \<^verbatim>\<open>cache_key\<close> in the session, the
  stored result is read back; \<open>None\<close> is the \<^verbatim>\<open>KeyError\<close> of a missing entry.
\<close>

definition snapshot ::
  "upstream \<Rightarrow> (str \<Rightarrow> agency list option) \<Rightarrow> (str \<Rightarrow> title_info list option) \<Rightarrow> config
     \<Rightarrow> libraries \<Rightarrow> session \<Rightarrow> snapshot_result option \<times> session" where
  "snapshot up decode_agencies decode_titles cfg libs s =
     (if cache_results cfg \<and> analysis_marks s (agency_analysis_key cfg)
      then (analysis_results s (agency_analysis_key cfg), s)
      else (case snapshot_compute up decode_agencies decode_titles cfg libs s of
              (res, s') \<Rightarrow> (Some res, s')))"

subsection \<open>Time series\<close>

text \<open>
  One round of the loop over years in \<^verbatim>\<open>calculate_word_counts_over_time\<close>: the titles are
  counted as of the first of January, and the counts are attributed.
\<close>

definition year_word_counts ::
  "upstream \<Rightarrow> config \<Rightarrow> libraries \<Rightarrow> (pyval \<times> string list) list
     \<Rightarrow> title_info list \<Rightarrow> nat \<Rightarrow> nat \<Rightarrow> session \<Rightarrow> (string \<times> rat) list \<times> run_state" where
  "year_word_counts up cfg libs title_to_agencies titles_info cap year s =
     (let st = process_titles up cfg libs (Date year 1 1) False cap titles_info s
      in (attribute (word_counts st) title_to_agencies, st))"

definition calculate_word_counts_over_time ::
  "upstream \<Rightarrow> config \<Rightarrow> libraries \<Rightarrow> agency list \<Rightarrow> title_info list
     \<Rightarrow> nat list \<Rightarrow> nat \<Rightarrow> session \<Rightarrow> (nat \<times> (string \<times> rat) list) list \<times> session" where
  "calculate_word_counts_over_time up cfg libs agencies titles_info years cap s =
     (let title_to_agencies = reverse_mapping (create_agency_title_mapping agencies)
      in fold (\<lambda>year (word_counts_by_year, s').
                 case year_word_counts up cfg libs title_to_agencies titles_info cap year s' of
                   (agency_word_counts, st) \<Rightarrow>
                     (dict_set year agency_word_counts word_counts_by_year, sess st))
           years ([], s))"

subsection \<open>Composition\<close>

text \<open>
  The titles the composition analysis processes: the titles of the catalog whose number,
  as a string, is an element of the agency's set; if there are none, for each element of
  the set the first title of the catalog with the same string; and if there are still
  none, the first ten titles of the catalog.
\<close>

definition relevant_titles :: "title_info list \<Rightarrow> pyval list \<Rightarrow> title_info list" where
  "relevant_titles titles_info titles_for_agency =
     (let r1 = filter (\<lambda>t. PStr (str_int (number t)) \<in> set titles_for_agency) titles_info;
          r2 = (if r1 = []
                then concat (map (\<lambda>title_num.
                        case find (\<lambda>t. str_int (number t) = py_str title_num) titles_info of
                          Some title_match \<Rightarrow> [title_match]
                        | None \<Rightarrow> [])
                      titles_for_agency)
                else r1)
      in if r2 = [] then take 10 titles_info else r2)"

text \<open>
  \<^verbatim>\<open>round(x, 2)\<close> of a double: its exact value is rounded to the nearest hundredth, a tie
  going to the even one, and the result is the double nearest to that decimal number.
\<close>

definition py_round2 :: "rat \<Rightarrow> rat" where
  "py_round2 x = fl (of_int (rne (x * 100)) / 100)"

record composition_row =
  row_title_number :: int
  row_title :: string
  row_word_count :: int
  row_percentage :: rat

definition title_label :: "title_info list \<Rightarrow> int \<Rightarrow> string" where
  "title_label titles_info title_num =
     ''Title '' @ str_int title_num @ '': '' @
       (case find (\<lambda>t. number t = title_num) titles_info of
          Some t \<Rightarrow> title_name t
        | None \<Rightarrow> ''Title '' @ str_int title_num)"

text \<open>
  The rows of \<^verbatim>\<open>composition_data\<close>, in the order of \<^verbatim>\<open>title_word_counts\<close>. The table shown
  holds the same rows, sorted by percentage. \<^verbatim>\<open>(word_count / total_words) * 100\<close> is a
  division of two integers with a \<^verbatim>\<open>float\<close> result and a multiplication of doubles.
\<close>

definition composition_data :: "title_info list \<Rightarrow> (int \<times> int) list \<Rightarrow> composition_row list" where
  "composition_data titles_info title_word_counts =
     (let total_words = sum_list (map snd title_word_counts)
      in map (\<lambda>(title_num, word_count).
                \<lparr>row_title_number = title_num,
                 row_title = title_label titles_info title_num,
                 row_word_count = word_count,
                 row_percentage =
                   py_round2 (if total_words > 0
                              then fmul (fdiv (of_int word_count) (of_int total_words)) 100
                              else 0)\<rparr>)
           title_word_counts)"

record composition_result =
  comp_title_word_counts :: "(int \<times> int) list"
  comp_title_fetch_errors :: "(int \<times> string) list"
  comp_total_words :: int
  comp_rows :: "composition_row list"
  comp_has_data :: bool
  comp_fetched :: "(int \<times> date \<times> str option) list"

text \<open>
  The computation behind the button of the composition tab, from the agencies and
  titles kept in the session.
\<close>

definition composition ::
  "upstream \<Rightarrow> config \<Rightarrow> libraries \<Rightarrow> agency list \<Rightarrow> title_info list \<Rightarrow> string
     \<Rightarrow> session \<Rightarrow> composition_result \<times> session" where
  "composition up cfg libs agencies titles_info selected_agency s =
     (let titles_for_agency = dict_get (create_agency_title_mapping agencies) selected_agency []
      in if titles_for_agency = []
         then (\<lparr>comp_title_word_counts = [], comp_title_fetch_errors = [], comp_total_words = 0,
                 comp_rows = [], comp_has_data = False, comp_fetched = []\<rparr>, s)
         else (let st = fold (process_title_composition up cfg libs (target_date cfg))
                          (relevant_titles titles_info titles_for_agency) (start_run s)
               in (\<lparr>comp_title_word_counts = word_counts st,
                     comp_title_fetch_errors = fetch_errors st,
                     comp_total_words = sum_list (map snd (word_counts st)),
                     comp_rows = composition_data titles_info (word_counts st),
                     comp_has_data = (word_counts st \<noteq> []),
                     comp_fetched = fetched st\<rparr>, sess st)))"

section \<open>Invariants of the loops, and notions for the statements\<close>

text \<open>
  An entry of the log \<open>fetched\<close> comes from a title of the list that is not reserved, with
  the date the loop chooses for it.
\<close>

definition from_titles :: "title_info list \<Rightarrow> date \<Rightarrow> int \<times> date \<times> str option \<Rightarrow> bool" where
  "from_titles titles target e =
     (\<exists>t \<in> set titles. \<not> reserved t \<and> fst e = number t
        \<and> fst (snd e) = use_date target (latest_amended_on t))"

text \<open>
  The dictionary of word counts against the log: a title number is a key exactly when
  some call for it returned a text that is neither \<^verbatim>\<open>None\<close> nor empty, and its value is
  the word count of such a text.
\<close>

definition run_ok :: "libraries \<Rightarrow> run_state \<Rightarrow> bool" where
  "run_ok libs st =
     ((\<forall>n. n \<in> fst ` set (word_counts st)
           \<longleftrightarrow> (\<exists>e \<in> set (fetched st). fst e = n \<and> truthy (snd (snd e))))
      \<and> (\<forall>n v. map_of (word_counts st) n = Some v \<longrightarrow>
            (\<exists>e \<in> set (fetched st). fst e = n \<and> truthy (snd (snd e))
               \<and> v = count_words_in_xml libs (snd (snd e)))))"

text \<open>
  Every logged call comes from a title of the list that is not reserved, and every
  request made since the session \<open>s\<close> is the request of a logged call.
\<close>

definition run_from :: "title_info list \<Rightarrow> date \<Rightarrow> session \<Rightarrow> run_state \<Rightarrow> bool" where
  "run_from titles target s st =
     ((\<forall>e \<in> set (fetched st). from_titles titles target e)
      \<and> (\<exists>new. requests_log (sess st) = requests_log s @ new
            \<and> (\<forall>r \<in> set new. \<exists>e \<in> set (fetched st). r = TitleXml (fst e) (fst (snd e)))))"

text \<open>
  A title number \<open>n\<close> for which no call can return a text: every logged call for it
  returned \<open>None\<close>, and the session cache holds no text for it, unless the calls bypass
  the cache.
\<close>

definition run_without :: "bool \<Rightarrow> int \<Rightarrow> run_state \<Rightarrow> bool" where
  "run_without bypass n st =
     ((\<forall>e \<in> set (fetched st). fst e = n \<longrightarrow> snd (snd e) = None)
      \<and> (bypass \<or> (\<forall>d. title_content_cache (sess st) (n, d) = None)))"

text \<open>A request for the text of a title of the list that is not reserved.\<close>

definition unreserved_request :: "title_info list \<Rightarrow> request \<Rightarrow> bool" where
  "unreserved_request titles r =
     (\<exists>t \<in> set titles. \<not> reserved t \<and> (\<exists>d. r = TitleXml (number t) d))"

text \<open>The result of the composition analysis and its session, as a loop state.\<close>

definition composition_run :: "composition_result \<times> session \<Rightarrow> run_state" where
  "composition_run c =
     \<lparr>word_counts = comp_title_word_counts (fst c),
      fetch_errors = comp_title_fetch_errors (fst c),
      fetched = comp_fetched (fst c), sess = snd c\<rparr>"

text \<open>
  A title of the catalog is owned, for the composition analysis, when its number written
  as a string is the string of an element of the agency's set of titles.
\<close>

definition owned :: "pyval list \<Rightarrow> int \<Rightarrow> bool" where
  "owned titles_for_agency title_number =
     (\<exists>v \<in> set titles_for_agency. str_int title_number = py_str v)"

text \<open>
  The second attempt of \<open>relevant_titles\<close>: for each element of the agency's set, the
  first title of the catalog with the same string.
\<close>

definition matches :: "title_info list \<Rightarrow> pyval list \<Rightarrow> title_info list" where
  "matches titles_info tfa =
     concat (map (\<lambda>title_num.
                        case find (\<lambda>t. str_int (number t) = py_str title_num) titles_info of
                          Some title_match \<Rightarrow> [title_match]
                        | None \<Rightarrow> []) tfa)"

text \<open>The exact share of a title in the total, in percent.\<close>

definition share :: "int \<Rightarrow> int \<Rightarrow> rat" where
  "share total_words word_count = (of_int word_count / of_int total_words) * 100"

text \<open>
  What the call of \<^verbatim>\<open>get_title_content\<close> in the body of a loop over titles returns for the
  title \<open>ti\<close> when the loop reaches it in the session \<open>s\<close>.
\<close>

definition content_at :: "upstream \<Rightarrow> config \<Rightarrow> date \<Rightarrow> bool \<Rightarrow> title_info \<Rightarrow> session \<Rightarrow> str option" where
  "content_at up cfg target force_refresh ti s =
     fst (get_title_content up cfg (number ti) (use_date target (latest_amended_on ti))
            1 force_refresh s)"

text \<open>
  \<open>x\<close> is \<open>y\<close> up to \<open>j\<close> roundings, each with a relative error of at most \<open>unit_roundoff\<close>.
\<close>

definition close_to :: "nat \<Rightarrow> rat \<Rightarrow> rat \<Rightarrow> bool" where
  "close_to j x y =
     ((1 - unit_roundoff) ^ j * y \<le> x \<and> x \<le> (1 + unit_roundoff) ^ j * y)"

section \<open>What a session shows to the retrieval layer\<close>

text \<open>
  What the upstream gives for the list of agencies and the list of titles: the decoded
  list of a response with status 200, and the empty list for everything else.
\<close>

definition upstream_list :: "upstream \<Rightarrow> request \<Rightarrow> (str \<Rightarrow> 'a list option) \<Rightarrow> 'a list" where
  "upstream_list up r decode =
     (case up 0 r of
        Response code body \<Rightarrow>
          if code = 200 then (case decode body of Some xs \<Rightarrow> xs | None \<Rightarrow> []) else []
      | Timeout \<Rightarrow> []
      | RequestError \<Rightarrow> [])"

text \<open>What a call for a title gives when it does not find the text in the cache.\<close>

definition uncached_content :: "upstream \<Rightarrow> config \<Rightarrow> int \<Rightarrow> date \<Rightarrow> str option" where
  "uncached_content up cfg n d =
     (if skip_problematic_titles cfg \<and> n \<in> set problematic_titles then None
      else upstream_content up n d)"

text \<open>
  What the three retrieval functions return in a session, called as the snapshot calls
  them (\<^verbatim>\<open>force_refresh=not cache_results\<close>), when the upstream never changes.
\<close>

definition title_view :: "upstream \<Rightarrow> config \<Rightarrow> session \<Rightarrow> int \<Rightarrow> date \<Rightarrow> str option" where
  "title_view up cfg s n d =
     (if cache_results cfg \<and> title_content_cache s (n, d) \<noteq> None
      then title_content_cache s (n, d) else uncached_content up cfg n d)"

definition agencies_view ::
  "upstream \<Rightarrow> (str \<Rightarrow> agency list option) \<Rightarrow> config \<Rightarrow> session \<Rightarrow> agency list" where
  "agencies_view up decode cfg s =
     (if cache_results cfg \<and> agencies_cache s \<noteq> None then the (agencies_cache s)
      else upstream_list up AgenciesJson decode)"

definition titles_view ::
  "upstream \<Rightarrow> (str \<Rightarrow> title_info list option) \<Rightarrow> config \<Rightarrow> session \<Rightarrow> title_info list" where
  "titles_view up decode cfg s =
     (if cache_results cfg \<and> titles_cache s \<noteq> None then the (titles_cache s)
      else upstream_list up TitlesJson decode)"

text \<open>
  A session whose caches hold what a call without the cache would return now: the
  lists of the upstream, and for a title and date the text of the upstream, and no text
  at all for a title that the skip list excludes.
\<close>

definition session_agrees ::
  "upstream \<Rightarrow> (str \<Rightarrow> agency list option) \<Rightarrow> (str \<Rightarrow> title_info list option) \<Rightarrow> config
     \<Rightarrow> session \<Rightarrow> bool" where
  "session_agrees up decode_agencies decode_titles cfg s =
     ((\<forall>n d c. title_content_cache s (n, d) = Some c \<longrightarrow> uncached_content up cfg n d = Some c)
      \<and> (\<forall>a. agencies_cache s = Some a \<longrightarrow> upstream_list up AgenciesJson decode_agencies = a)
      \<and> (\<forall>t. titles_cache s = Some t \<longrightarrow> upstream_list up TitlesJson decode_titles = t))"

text \<open>
  The loop over titles, and the snapshot, computed from what the session shows rather
  than from the session: the state is the word-count dictionary and the log.
\<close>

definition view_step ::
  "libraries \<Rightarrow> date \<Rightarrow> (int \<Rightarrow> date \<Rightarrow> str option) \<Rightarrow> title_info
     \<Rightarrow> (int \<times> int) list \<times> (int \<times> date \<times> str option) list
     \<Rightarrow> (int \<times> int) list \<times> (int \<times> date \<times> str option) list" where
  "view_step libs target view ti acc =
     (if reserved ti then acc
      else (if truthy (view (number ti) (use_date target (latest_amended_on ti)))
            then dict_set (number ti)
                   (count_words_in_xml libs
                      (view (number ti) (use_date target (latest_amended_on ti))))
                   (fst acc)
            else fst acc,
            snd acc @ [(number ti, use_date target (latest_amended_on ti),
                        view (number ti) (use_date target (latest_amended_on ti)))]))"

definition snapshot_by_views ::
  "agency list \<Rightarrow> title_info list \<Rightarrow> (int \<Rightarrow> date \<Rightarrow> str option) \<Rightarrow> libraries
     \<Rightarrow> date \<Rightarrow> nat \<Rightarrow> snapshot_result" where
  "snapshot_by_views agencies titles_info view libs target cap =
     (let counts = fst (fold (view_step libs target view)
                          (take (min cap (length titles_info)) titles_info) ([], []))
      in \<lparr>res_agencies = agencies, res_titles_info = titles_info,
           res_title_word_counts = counts,
           res_agency_word_counts =
             attribute counts (reverse_mapping (create_agency_title_mapping agencies))\<rparr>)"

text \<open>The parts of a session that the cached lists and results live in.\<close>

definition same_lists :: "session \<Rightarrow> session \<Rightarrow> bool" where
  "same_lists s s' =
     (agencies_cache s' = agencies_cache s \<and> titles_cache s' = titles_cache s
      \<and> analysis_marks s' = analysis_marks s \<and> analysis_results s' = analysis_results s)"

section \<open>Agency names and cache keys of the other tabs\<close>

text \<open>
  \<^verbatim>\<open>collect_agency_names\<close> of the time-series and composition tabs, which fills the
  selection boxes: every agency and, recursively, the agencies below it.
\<close>

fun collect_agency_names :: "agency list \<Rightarrow> string list" where
  "collect_agency_names [] = []"
| "collect_agency_names (Agency agency_name agency_slug refs childs # agency_list) =
     agency_name # collect_agency_names childs @ collect_agency_names agency_list"

text \<open>How an f-string writes a truth value and a date (\<^verbatim>\<open>strftime("%Y-%m-%d")\<close>).\<close>

definition str_bool :: "bool \<Rightarrow> string" where
  "str_bool b = (if b then ''True'' else ''False'')"

definition zfill :: "nat \<Rightarrow> string \<Rightarrow> string" where
  "zfill w s = replicate (w - length s) CHR ''0'' @ s"

definition str_date :: "date \<Rightarrow> string" where
  "str_date dt =
     (case dt of Date y m d \<Rightarrow>
        zfill 4 (str_nat y) @ ''-'' @ zfill 2 (str_nat m) @ ''-'' @ zfill 2 (str_nat d))"

text \<open>\<^verbatim>\<open>s.replace(' ', '_')\<close> and \<^verbatim>\<open>'_'.join(xs)\<close>.\<close>

definition replace_spaces :: "string \<Rightarrow> string" where
  "replace_spaces s = map (\<lambda>c. if c = CHR '' '' then CHR ''_'' else c) s"

fun join_underscore :: "string list \<Rightarrow> string" where
  "join_underscore [] = []"
| "join_underscore [x] = x"
| "join_underscore (x # y # xs) = x @ ''_'' @ join_underscore (y # xs)"

text \<open>
  The time-series tab first builds \<^verbatim>\<open>agencies_key\<close> from the selected agencies, sorted,
  and then the cache key, in which \<^verbatim>\<open>agencies_key\<close> does not occur.
\<close>

definition agencies_key :: "string list \<Rightarrow> string" where
  "agencies_key selected_agencies =
     join_underscore (sort (map (\<lambda>agency. take 10 (replace_spaces agency)) selected_agencies))"

definition wordcount_time_cache_key :: "config \<Rightarrow> int \<Rightarrow> int \<Rightarrow> string list \<Rightarrow> string" where
  "wordcount_time_cache_key cfg start_year end_year selected_agencies =
     (let unused = agencies_key selected_agencies
      in ''wordcount_time_'' @ str_int start_year @ ''_'' @ str_int end_year @ ''_''
         @ str_nat (max_titles cfg) @ ''_'' @ str_date (target_date cfg) @ ''_''
         @ str_bool (skip_problematic_titles cfg) @ ''_'' @ str_int (request_timeout cfg))"

definition agency_composition_cache_key :: "config \<Rightarrow> string \<Rightarrow> string" where
  "agency_composition_cache_key cfg selected_agency =
     ''agency_composition_'' @ replace_spaces selected_agency @ ''_''
       @ str_date (target_date cfg) @ ''_'' @ str_bool (skip_problematic_titles cfg) @ ''_''
       @ str_int (request_timeout cfg)"

section \<open>Rounding to the nearest double\<close>

lemma rne_error: "\<bar>of_int (rne y) - y\<bar> \<le> 1 / 2"
proof -
  have "of_int \<lfloor>y\<rfloor> \<le> y" "y < of_int \<lfloor>y\<rfloor> + 1" by linarith+
  then show ?thesis by (auto simp: rne_def Let_def)
qed

lemma up_log_bounds: "1 \<le> x \<Longrightarrow> 2 ^ up_log x \<le> x \<and> x < 2 * 2 ^ up_log x"
proof (induction x rule: up_log.induct)
  case (1 x)
  show ?case
  proof (cases "2 \<le> x")
    case True
    then have "1 \<le> x / 2" by simp
    from 1(1) [OF True this] show ?thesis
      using True by (subst (1 2) up_log.simps) (simp)
  next
    case False
    then show ?thesis using 1(2) by (subst (1 2) up_log.simps) simp
  qed
qed

lemma down_log_bounds:
  "0 < x \<Longrightarrow> x < 1 \<Longrightarrow> 1 \<le> x * 2 ^ down_log x \<and> x * 2 ^ down_log x < 2"
proof (induction x rule: down_log.induct)
  case (1 x)
  have step: "down_log x = Suc (down_log (2 * x))"
    using 1(2,3) by (subst down_log.simps) simp
  show ?case
  proof (cases "2 * x < 1")
    case True
    from 1(1) [OF _ _ True] 1(2,3) show ?thesis
      by (simp add: step mult.assoc mult.left_commute)
  next
    case False
    then have "down_log (2 * x) = 0" by (subst down_log.simps) simp
    then show ?thesis using False 1(3) by (simp add: step)
  qed
qed

lemma ilog2_lower:
  assumes "0 < x"
  shows "2 powi ilog2 x \<le> x"
proof (cases "1 \<le> x")
  case True
  then show ?thesis using up_log_bounds [OF True] by (simp add: ilog2_def)
next
  case False
  then have lt: "x < 1" by simp
  have "1 \<le> x * 2 ^ down_log x" using down_log_bounds [OF assms lt] by simp
  then have "1 / 2 ^ down_log x \<le> x" by (simp add: field_simps)
  then show ?thesis using False by (simp add: ilog2_def power_int_minus field_simps)
qed

lemma ilog2_upper:
  assumes "0 < x"
  shows "x < 2 powi (ilog2 x + 1)"
proof (cases "1 \<le> x")
  case True
  then show ?thesis using up_log_bounds [OF True]
    by (simp add: ilog2_def power_int_add)
next
  case False
  then have lt: "x < 1" by simp
  have "x * 2 ^ down_log x < 2" using down_log_bounds [OF assms lt] by simp
  then have "x < 2 / 2 ^ down_log x" by (simp add: field_simps)
  moreover have "(2 :: rat) powi (1 - int (down_log x)) = 2 / 2 ^ down_log x"
    by (simp add: power_int_diff)
  ultimately show ?thesis using False by (simp add: ilog2_def)
qed

lemma fl_error: "\<bar>fl x - x\<bar> \<le> \<bar>x\<bar> / 2 ^ 53"
proof (cases "x = 0")
  case True
  then show ?thesis by (simp add: fl_def)
next
  case False
  define e where "e = ilog2 \<bar>x\<bar>"
  define ulp :: rat where "ulp = 2 powi (e - 52)"
  have pos: "0 < ulp" by (simp add: ulp_def)
  have fl: "fl x = of_int (rne (x / ulp)) * ulp"
    using False by (simp add: fl_def Let_def ulp_def e_def)
  have "fl x - x = (of_int (rne (x / ulp)) - x / ulp) * ulp"
    using pos by (simp add: fl field_simps)
  then have "\<bar>fl x - x\<bar> = \<bar>of_int (rne (x / ulp)) - x / ulp\<bar> * ulp"
    using pos by (simp add: abs_mult)
  also have "\<dots> \<le> (1 / 2) * ulp"
    using rne_error [of "x / ulp"] pos by (intro mult_right_mono) simp_all
  also have "(1 / 2) * ulp = 2 powi e / 2 ^ 53"
    by (simp add: ulp_def power_int_diff)
  also have "\<dots> \<le> \<bar>x\<bar> / 2 ^ 53"
    using ilog2_lower [of "\<bar>x\<bar>"] False by (simp add: e_def divide_right_mono)
  finally show ?thesis .
qed

lemma fl_bounds:
  assumes "0 \<le> x"
  shows "(1 - unit_roundoff) * x \<le> fl x" and "fl x \<le> (1 + unit_roundoff) * x"
proof -
  have e: "\<bar>fl x - x\<bar> \<le> x * unit_roundoff"
    using fl_error [of x] assms by (simp add: unit_roundoff_def)
  then have e1: "x - x * unit_roundoff \<le> fl x" and e2: "fl x \<le> x + x * unit_roundoff"
    by (simp_all add: abs_le_iff)
  show "(1 - unit_roundoff) * x \<le> fl x"
    using e1 by (simp add: algebra_simps)
  show "fl x \<le> (1 + unit_roundoff) * x"
    using e2 by (simp add: algebra_simps)
qed

lemma unit_roundoff_bounds: "0 < unit_roundoff" "unit_roundoff < 1"
  by (simp_all add: unit_roundoff_def)

lemma fl_nonneg: "0 \<le> x \<Longrightarrow> 0 \<le> fl x"
proof -
  assume x: "0 \<le> x"
  have "0 \<le> (1 - unit_roundoff) * x" using x unit_roundoff_bounds by simp
  with fl_bounds(1) [OF x] show ?thesis by linarith
qed

section \<open>Dictionaries and the ownership index: basic facts\<close>

lemma map_of_dict_set: "map_of (dict_set k v d) = (map_of d)(k \<mapsto> v)"
  by (induction d) (auto simp: fun_eq_iff)

lemma dict_get_dict_set: "dict_get (dict_set k v d) k' dflt = (if k' = k then v else dict_get d k' dflt)"
  by (simp add: dict_get_def map_of_dict_set)

lemma keys_dict_set: "set (map fst (dict_set k v d)) = insert k (set (map fst d))"
proof (induction d)
  case Nil
  then show ?case by simp
next
  case (Cons p d)
  then show ?case by (cases p) (simp add: insert_commute)
qed

lemma distinct_dict_set: "distinct (map fst d) \<Longrightarrow> distinct (map fst (dict_set k v d))"
proof (induction d)
  case Nil
  then show ?case by simp
next
  case (Cons p d)
  have "set (map fst (dict_set k v d)) = insert k (set (map fst d))" by (rule keys_dict_set)
  with Cons show ?case by (cases p) auto
qed

lemma sum_dict_set:
  fixes d :: "('k \<times> rat) list"
  shows "sum_list (map snd (dict_set k v d)) = sum_list (map snd d) - dict_get d k 0 + v"
  by (induction d) (auto simp: dict_get_def)

lemma sum_add_count_exact: "sum_list (map snd (add_count_exact a x d)) = sum_list (map snd d) + x"
  by (simp add: add_count_exact_def sum_dict_set)

lemma get_add_count_exact: "dict_get (add_count_exact a x d) b 0 = dict_get d b 0 + (if b = a then x else 0)"
  by (simp add: add_count_exact_def dict_get_dict_set)

lemma sum_fold_add_count_exact:
  "sum_list (map snd (fold (\<lambda>a acc'. add_count_exact a x acc') owners acc))
     = sum_list (map snd acc) + of_nat (length owners) * x"
  by (induction owners arbitrary: acc) (simp_all add: sum_add_count_exact algebra_simps)

lemma get_fold_add_count_exact:
  "dict_get (fold (\<lambda>a acc'. add_count_exact a x acc') owners acc) b 0
     = dict_get acc b 0 + of_nat (count_list owners b) * x"
  by (induction owners arbitrary: acc) (simp_all add: get_add_count_exact algebra_simps)

lemma sum_attribute_title_exact:
  "sum_list (map snd (attribute_title_exact idx (t, wc) acc))
     = sum_list (map snd acc) + (if dict_get idx (PInt t) [] \<noteq> [] then of_int wc else 0)"
  by (simp add: attribute_title_exact_def Let_def sum_fold_add_count_exact)

lemma get_attribute_title_exact:
  "dict_get (attribute_title_exact idx (t, wc) acc) a 0
     = dict_get acc a 0
       + of_nat (count_list (dict_get idx (PInt t) []) a) * of_int wc
           / of_nat (length (dict_get idx (PInt t) []))"
  by (simp add: attribute_title_exact_def Let_def get_fold_add_count_exact)

lemma sum_fold_attribute_exact:
  "sum_list (map snd (fold (attribute_title_exact idx) tws acc))
     = sum_list (map snd acc)
       + of_int (sum_list (map snd (filter (\<lambda>tw. dict_get idx (PInt (fst tw)) [] \<noteq> []) tws)))"
proof (induction tws arbitrary: acc)
  case Nil
  then show ?case by simp
next
  case (Cons tw tws)
  obtain t wc where tw: "tw = (t, wc)" by (cases tw)
  show ?case by (simp add: Cons.IH tw sum_attribute_title_exact)
qed

lemma get_fold_attribute_exact:
  "dict_get (fold (attribute_title_exact idx) tws acc) a 0
     = dict_get acc a 0
       + sum_list (map (\<lambda>tw. of_nat (count_list (dict_get idx (PInt (fst tw)) []) a) * of_int (snd tw)
                               / of_nat (length (dict_get idx (PInt (fst tw)) []))) tws)"
proof (induction tws arbitrary: acc)
  case Nil
  then show ?case by simp
next
  case (Cons tw tws)
  obtain t wc where tw: "tw = (t, wc)" by (cases tw)
  show ?case by (simp add: Cons.IH tw get_attribute_title_exact)
qed

lemma set_dict_set: "set (dict_set k v d) \<subseteq> insert (k, v) (set d)"
  by (induction d) (auto split: if_splits)

lemma distinct_set_add: "distinct xs \<Longrightarrow> distinct (set_add x xs)"
  by (simp add: set_add_def)

lemma dict_get_distinct: "dict_ok d \<Longrightarrow> distinct (dict_get d k [])"
  by (auto simp: dict_ok_def dict_get_def split: option.splits dest: map_of_SomeD)

lemma dict_ok_add_title: "dict_ok d \<Longrightarrow> dict_ok (add_title a t d)"
proof -
  assume ok: "dict_ok d"
  have v: "distinct (set_add t (dict_get d a []))"
    by (rule distinct_set_add) (rule dict_get_distinct [OF ok])
  have "\<forall>p \<in> set (add_title a t d). distinct (snd p)"
    using set_dict_set [of a "set_add t (dict_get d a [])" d] v ok
    by (auto simp: add_title_def dict_ok_def)
  moreover have "distinct (map fst (add_title a t d))"
    using ok by (simp add: add_title_def dict_ok_def distinct_dict_set)
  ultimately show ?thesis by (simp add: dict_ok_def)
qed

lemma dict_ok_add_references: "dict_ok d \<Longrightarrow> dict_ok (add_references a refs d)"
  unfolding add_references_def
  by (induction refs arbitrary: d) (auto simp: dict_ok_add_title split: option.splits)

lemma dict_ok_children:
  "dict_ok d \<Longrightarrow> dict_ok (fold (\<lambda>child d'. add_references (name child) (cfr_references child) d') cs d)"
  by (induction cs arbitrary: d) (auto simp: dict_ok_add_references)

lemma dict_ok_agencies:
  "dict_ok d \<Longrightarrow>
   dict_ok (fold (\<lambda>agency d.
             fold (\<lambda>child d'. add_references (name child) (cfr_references child) d')
               (children agency)
               (add_references (name agency) (cfr_references agency) d)) ags d)"
  by (induction ags arbitrary: d) (auto simp: dict_ok_add_references dict_ok_children)

lemma dict_ok_mapping: "dict_ok (create_agency_title_mapping agencies)"
  unfolding create_agency_title_mapping_def
  by (rule dict_ok_agencies) (simp add: dict_ok_def)

lemma get_append_agency:
  "dict_get (append_agency a t d) t' [] = dict_get d t' [] @ (if t' = t then [a] else [])"
  by (simp add: append_agency_def dict_get_dict_set)

lemma get_fold_append_agency:
  "dict_get (fold (append_agency a) ts d) t [] = dict_get d t [] @ replicate (count_list ts t) a"
  by (induction ts arbitrary: d) (auto simp: get_append_agency replicate_app_Cons_same)

lemma get_fold_reverse:
  "dict_get (fold (\<lambda>(a, titles) d. fold (append_agency a) titles d) m d) t []
     = dict_get d t [] @ concat (map (\<lambda>p. replicate (count_list (snd p) t) (fst p)) m)"
proof (induction m arbitrary: d)
  case Nil
  then show ?case by simp
next
  case (Cons p m)
  then show ?case by (cases p) (simp add: get_fold_append_agency)
qed

lemma get_reverse_mapping:
  "dict_get (reverse_mapping m) t []
     = concat (map (\<lambda>p. replicate (count_list (snd p) t) (fst p)) m)"
proof -
  have "dict_get ([] :: (pyval \<times> string list) list) t [] = []"
    by (simp add: dict_get_def)
  then show ?thesis
    unfolding reverse_mapping_def by (simp only: get_fold_reverse append_Nil)
qed

lemma count_list_distinct: "distinct xs \<Longrightarrow> count_list xs x = (if x \<in> set xs then 1 else 0)"
  by (induction xs) auto

lemma owners_filter:
  assumes "\<forall>p \<in> set m. distinct (snd p)"
  shows "concat (map (\<lambda>p. replicate (count_list (snd p) t) (fst p)) m)
           = map fst (filter (\<lambda>p. t \<in> set (snd p)) m)"
  using assms by (induction m) (auto simp: count_list_distinct)

lemma reverse_mapping_owners:
  "dict_ok m \<Longrightarrow> dict_get (reverse_mapping m) t [] = map fst (filter (\<lambda>p. t \<in> set (snd p)) m)"
  by (simp add: get_reverse_mapping owners_filter dict_ok_def)

lemma reverse_mapping_distinct:
  "dict_ok m \<Longrightarrow> distinct (dict_get (reverse_mapping m) t [])"
  by (simp add: reverse_mapping_owners dict_ok_def distinct_map_filter)

section \<open>Retrieval layer: effect on the session\<close>

lemma after_fetch_0: "after_fetch cfg n d None 0 s = s"
  by (simp add: after_fetch_def)

lemma after_fetch_send:
  "after_fetch cfg n d res k (snd (send up (TitleXml n d) s)) = after_fetch cfg n d res (Suc k) s"
  by (cases res) (simp_all add: after_fetch_def send_def replicate_app_Cons_same)

lemma fetch_title_session:
  "\<exists>k. snd (fetch_title up cfg n d mr r s) = after_fetch cfg n d (fst (fetch_title up cfg n d mr r s)) k s"
proof (induction up cfg n d mr r s rule: fetch_title.induct)
  case (1 up cfg n d mr r s)
  obtain rsp s' where snd: "send up (TitleXml n d) s = (rsp, s')" by (cases "send up (TitleXml n d) s")
  have s': "s' = snd (send up (TitleXml n d) s)" by (simp add: snd)
  show ?case
  proof (cases "r \<le> mr")
    case False
    then have "fetch_title up cfg n d mr r s = (None, s)"
      by (simp add: fetch_title.simps)
    then show ?thesis using after_fetch_0 [of cfg n d s] by (intro exI [of _ 0]) simp
  next
    case True
    note le = this
    show ?thesis
    proof (cases rsp)
      case (Response code body)
      show ?thesis
      proof (cases "code = 200")
        case True
        then have "fetch_title up cfg n d mr r s =
          (Some body, if cache_results cfg then s'\<lparr>title_content_cache := (title_content_cache s')((n, d) \<mapsto> body)\<rparr> else s')"
          using le snd Response by (simp add: fetch_title.simps [of up cfg n d mr r s])
        moreover have "(if cache_results cfg then s'\<lparr>title_content_cache := (title_content_cache s')((n, d) \<mapsto> body)\<rparr> else s')
           = after_fetch cfg n d (Some body) (Suc 0) s"
          by (simp add: s' after_fetch_def send_def)
        ultimately show ?thesis by (intro exI [of _ "Suc 0"]) simp
      next
        case False
        note n200 = this
        show ?thesis
        proof (cases "code = 504 \<and> r + 1 \<le> mr")
          case True
          then have eq: "fetch_title up cfg n d mr r s = fetch_title up cfg n d mr (r + 1) s'"
            using le snd Response n200 by (simp add: fetch_title.simps [of up cfg n d mr r s])
          from "1.IH"(1) [OF le snd [symmetric] Response n200] True
          obtain k where "snd (fetch_title up cfg n d mr (r + 1) s')
              = after_fetch cfg n d (fst (fetch_title up cfg n d mr (r + 1) s')) k s'" by auto
          then show ?thesis using eq after_fetch_send [of cfg n d _ k up s] s' by (intro exI [of _ "Suc k"]) simp
        next
          case False
          then have "fetch_title up cfg n d mr r s = (None, s')"
            using le snd Response n200 by (auto simp add: fetch_title.simps [of up cfg n d mr r s])
          moreover have "s' = after_fetch cfg n d None (Suc 0) s"
            by (simp add: s' after_fetch_def send_def)
          ultimately show ?thesis by (intro exI [of _ "Suc 0"]) simp
        qed
      qed
    next
      case Timeout
      show ?thesis
      proof (cases "r + 1 \<le> mr")
        case True
        then have eq: "fetch_title up cfg n d mr r s = fetch_title up cfg n d mr (r + 1) s'"
          using le snd Timeout by (simp add: fetch_title.simps [of up cfg n d mr r s])
        from "1.IH"(2) [OF le snd [symmetric] Timeout True]
        obtain k where "snd (fetch_title up cfg n d mr (r + 1) s')
            = after_fetch cfg n d (fst (fetch_title up cfg n d mr (r + 1) s')) k s'" by auto
        then show ?thesis using eq after_fetch_send [of cfg n d _ k up s] s' by (intro exI [of _ "Suc k"]) simp
      next
        case False
        then have "fetch_title up cfg n d mr r s = (None, s')"
          using le snd Timeout by (auto simp add: fetch_title.simps [of up cfg n d mr r s])
        moreover have "s' = after_fetch cfg n d None (Suc 0) s"
          by (simp add: s' after_fetch_def send_def)
        ultimately show ?thesis by (intro exI [of _ "Suc 0"]) simp
      qed
    next
      case RequestError
      then have "fetch_title up cfg n d mr r s = (None, s')"
        using le snd by (auto simp add: fetch_title.simps [of up cfg n d mr r s])
      moreover have "s' = after_fetch cfg n d None (Suc 0) s"
        by (simp add: s' after_fetch_def send_def)
      ultimately show ?thesis by (intro exI [of _ "Suc 0"]) simp
    qed
  qed
qed

lemma get_title_content_session:
  "\<exists>k. snd (get_title_content up cfg n d mr fr s)
         = after_fetch cfg n d (fst (get_title_content up cfg n d mr fr s)) k s"
proof (cases "\<not> fr \<and> cache_results cfg \<and> title_content_cache s (n, d) \<noteq> None")
  case True
  then have "get_title_content up cfg n d mr fr s = (title_content_cache s (n, d), s)"
    by (simp add: get_title_content_def)
  moreover have "after_fetch cfg n d (title_content_cache s (n, d)) 0 s = s"
    by (simp add: after_fetch_def)
  ultimately show ?thesis by (intro exI [of _ 0]) simp
next
  case False
  note miss = this
  show ?thesis
  proof (cases "skip_problematic_titles cfg \<and> n \<in> set problematic_titles")
    case True
    then have "get_title_content up cfg n d mr fr s = (None, s)"
      using miss by (auto simp add: get_title_content_def)
    then show ?thesis using after_fetch_0 [of cfg n d s] by (intro exI [of _ 0]) simp
  next
    case False
    then have "get_title_content up cfg n d mr fr s = fetch_title up cfg n d mr 0 s"
      using miss by (auto simp add: get_title_content_def)
    then show ?thesis using fetch_title_session [of up cfg n d mr 0 s] by simp
  qed
qed

lemma after_fetch_log:
  "requests_log (after_fetch cfg n d res k s) = requests_log s @ replicate k (TitleXml n d)"
  by (simp add: after_fetch_def)

lemma after_fetch_cache_other:
  "n' \<noteq> n \<Longrightarrow> title_content_cache (after_fetch cfg n d res k s) (n', d') = title_content_cache s (n', d')"
  by (simp add: after_fetch_def)

lemma after_fetch_fields:
  "agencies_cache (after_fetch cfg n d res k s) = agencies_cache s"
  "titles_cache (after_fetch cfg n d res k s) = titles_cache s"
  "analysis_marks (after_fetch cfg n d res k s) = analysis_marks s"
  "analysis_results (after_fetch cfg n d res k s) = analysis_results s"
  by (simp_all add: after_fetch_def)

lemma fetch_title_immutable:
  "immutable up \<Longrightarrow>
   fst (fetch_title up cfg n d mr r s) = (if r \<le> mr then upstream_content up n d else None)"
proof (induction up cfg n d mr r s rule: fetch_title.induct)
  case (1 up cfg n d mr r s)
  obtain rsp s' where snd: "send up (TitleXml n d) s = (rsp, s')" by (cases "send up (TitleXml n d) s")
  have rsp: "rsp = up 0 (TitleXml n d)"
    using snd "1.prems" by (auto simp: send_def immutable_def)
  show ?case
  proof (cases "r \<le> mr")
    case False
    then show ?thesis by (simp add: fetch_title.simps [of up cfg n d mr r s])
  next
    case True
    note le = this
    show ?thesis
    proof (cases rsp)
      case (Response code body)
      show ?thesis
      proof (cases "code \<noteq> 200 \<and> code = 504 \<and> r + 1 \<le> mr")
        case True
        then have "fst (fetch_title up cfg n d mr (r + 1) s') = upstream_content up n d"
          using "1.IH"(1) [OF le snd [symmetric] Response _ _ _ "1.prems"] by simp
        moreover have "fetch_title up cfg n d mr r s = fetch_title up cfg n d mr (r + 1) s'"
          using True le snd Response by (simp add: fetch_title.simps [of up cfg n d mr r s])
        ultimately show ?thesis using le by simp
      next
        case False
        then show ?thesis
          using le snd Response rsp
          by (auto simp add: fetch_title.simps [of up cfg n d mr r s] upstream_content_def)
      qed
    next
      case Timeout
      show ?thesis
      proof (cases "r + 1 \<le> mr")
        case True
        then have "fst (fetch_title up cfg n d mr (r + 1) s') = upstream_content up n d"
          using "1.IH"(2) [OF le snd [symmetric] Timeout _ "1.prems"] by simp
        moreover have "fetch_title up cfg n d mr r s = fetch_title up cfg n d mr (r + 1) s'"
          using True le snd Timeout by (simp add: fetch_title.simps [of up cfg n d mr r s])
        ultimately show ?thesis using le by simp
      next
        case False
        then show ?thesis
          using le snd Timeout rsp
          by (auto simp add: fetch_title.simps [of up cfg n d mr r s] upstream_content_def)
      qed
    next
      case RequestError
      then show ?thesis
        using le snd rsp
        by (auto simp add: fetch_title.simps [of up cfg n d mr r s] upstream_content_def)
    qed
  qed
qed

section \<open>The loops over titles: basic facts\<close>

lemma run_ok_start: "run_ok libs (start_run s)"
  by (simp add: run_ok_def start_run_def)

lemma process_title_reserved: "reserved ti \<Longrightarrow> process_title up cfg libs target fr ti st = st"
  by (simp add: process_title_def)

lemma process_title_step:
  assumes "\<not> reserved ti"
  obtains c k where
    "process_title up cfg libs target fr ti st =
       st\<lparr>word_counts := (if truthy c
                           then dict_set (number ti) (count_words_in_xml libs c) (word_counts st)
                           else word_counts st),
          fetched := fetched st @ [(number ti, use_date target (latest_amended_on ti), c)],
          sess := after_fetch cfg (number ti) (use_date target (latest_amended_on ti)) c k (sess st)\<rparr>"
    "c = fst (get_title_content up cfg (number ti) (use_date target (latest_amended_on ti)) 1 fr (sess st))"
proof -
  let ?g = "get_title_content up cfg (number ti) (use_date target (latest_amended_on ti)) 1 fr (sess st)"
  obtain k where k: "snd ?g = after_fetch cfg (number ti) (use_date target (latest_amended_on ti)) (fst ?g) k (sess st)"
    using get_title_content_session by blast
  have "process_title up cfg libs target fr ti st =
       st\<lparr>word_counts := (if truthy (fst ?g)
                           then dict_set (number ti) (count_words_in_xml libs (fst ?g)) (word_counts st)
                           else word_counts st),
          fetched := fetched st @ [(number ti, use_date target (latest_amended_on ti), fst ?g)],
          sess := snd ?g\<rparr>"
    using assms by (simp add: process_title_def split: prod.splits)
  with k that show thesis by simp
qed

lemma run_ok_process_title:
  assumes "run_ok libs st"
  shows "run_ok libs (process_title up cfg libs target fr ti st)"
proof (cases "reserved ti")
  case True
  then show ?thesis using assms by (simp add: process_title_reserved)
next
  case False
  from process_title_step [OF False, of up cfg libs target fr st]
  obtain c k where eq: "process_title up cfg libs target fr ti st =
       st\<lparr>word_counts := (if truthy c
                           then dict_set (number ti) (count_words_in_xml libs c) (word_counts st)
                           else word_counts st),
          fetched := fetched st @ [(number ti, use_date target (latest_amended_on ti), c)],
          sess := after_fetch cfg (number ti) (use_date target (latest_amended_on ti)) c k (sess st)\<rparr>"
    by blast
  let ?st' = "process_title up cfg libs target fr ti st"
  let ?e = "(number ti, use_date target (latest_amended_on ti), c)"
  have keys: "fst ` set (dict_set k' v d) = insert k' (fst ` set d)" for k' :: int and v :: int and d
    using keys_dict_set [of k' v d] by simp
  have f: "set (fetched ?st') = insert ?e (set (fetched st))"
    by (simp add: eq)
  from assms have a1: "\<And>n. n \<in> fst ` set (word_counts st)
           \<longleftrightarrow> (\<exists>e \<in> set (fetched st). fst e = n \<and> truthy (snd (snd e)))"
    and a2: "\<And>n v. map_of (word_counts st) n = Some v \<Longrightarrow>
            (\<exists>e \<in> set (fetched st). fst e = n \<and> truthy (snd (snd e))
               \<and> v = count_words_in_xml libs (snd (snd e)))"
    unfolding run_ok_def by blast+
  have k1: "n \<in> fst ` set (word_counts ?st')
           \<longleftrightarrow> (\<exists>e \<in> set (fetched ?st'). fst e = n \<and> truthy (snd (snd e)))" for n
  proof (cases "truthy c")
    case True
    then have "fst ` set (word_counts ?st') = insert (number ti) (fst ` set (word_counts st))"
      by (simp add: eq keys)
    then show ?thesis unfolding f using a1 [of n] True by auto
  next
    case False
    then have "word_counts ?st' = word_counts st" by (simp add: eq)
    then show ?thesis unfolding f using a1 [of n] False by auto
  qed
  have k2: "\<exists>e \<in> set (fetched ?st'). fst e = n \<and> truthy (snd (snd e))
               \<and> v = count_words_in_xml libs (snd (snd e))"
    if m: "map_of (word_counts ?st') n = Some v" for n v
  proof (cases "truthy c \<and> n = number ti")
    case True
    then have "v = count_words_in_xml libs c"
      using m by (simp add: eq map_of_dict_set)
    then show ?thesis unfolding f using True by simp
  next
    case False
    then have "map_of (word_counts ?st') n = map_of (word_counts st) n"
      by (auto simp add: eq map_of_dict_set)
    with m have "map_of (word_counts st) n = Some v" by simp
    from a2 [OF this] show ?thesis unfolding f by auto
  qed
  show ?thesis unfolding run_ok_def using k1 k2 by blast
qed

lemma run_from_start: "run_from titles target s (start_run s)"
  by (simp add: run_from_def start_run_def)

lemma run_from_process_title:
  assumes inv: "run_from titles target s st" and mem: "ti \<in> set titles"
  shows "run_from titles target s (process_title up cfg libs target fr ti st)"
proof (cases "reserved ti")
  case True
  then show ?thesis using inv by (simp add: process_title_reserved)
next
  case False
  from process_title_step [OF False, of up cfg libs target fr st]
  obtain c k where eq: "process_title up cfg libs target fr ti st =
       st\<lparr>word_counts := (if truthy c
                           then dict_set (number ti) (count_words_in_xml libs c) (word_counts st)
                           else word_counts st),
          fetched := fetched st @ [(number ti, use_date target (latest_amended_on ti), c)],
          sess := after_fetch cfg (number ti) (use_date target (latest_amended_on ti)) c k (sess st)\<rparr>"
    by blast
  let ?st' = "process_title up cfg libs target fr ti st"
  let ?e = "(number ti, use_date target (latest_amended_on ti), c)"
  have f: "set (fetched ?st') = insert ?e (set (fetched st))"
    by (simp add: eq)
  have e: "from_titles titles target ?e"
    using mem False by (auto simp: from_titles_def)
  from inv obtain new where new: "requests_log (sess st) = requests_log s @ new"
    and src: "\<forall>r \<in> set new. \<exists>e \<in> set (fetched st). r = TitleXml (fst e) (fst (snd e))"
    unfolding run_from_def by blast
  let ?new' = "new @ replicate k (TitleXml (number ti) (use_date target (latest_amended_on ti)))"
  have l: "requests_log (sess ?st') = requests_log s @ ?new'"
    by (simp add: eq after_fetch_log new)
  have "\<forall>r \<in> set ?new'. \<exists>e \<in> set (fetched ?st'). r = TitleXml (fst e) (fst (snd e))"
  proof
    fix r assume "r \<in> set ?new'"
    then consider "r \<in> set new" | "r = TitleXml (number ti) (use_date target (latest_amended_on ti))"
      by auto
    then show "\<exists>e \<in> set (fetched ?st'). r = TitleXml (fst e) (fst (snd e))"
    proof cases
      case 1
      with src obtain e0 where "e0 \<in> set (fetched st)" "r = TitleXml (fst e0) (fst (snd e0))" by blast
      then show ?thesis unfolding f by blast
    next
      case 2
      then have "r = TitleXml (fst ?e) (fst (snd ?e))" by simp
      then show ?thesis unfolding f by blast
    qed
  qed
  with l have "\<exists>new. requests_log (sess ?st') = requests_log s @ new
            \<and> (\<forall>r \<in> set new. \<exists>e \<in> set (fetched ?st'). r = TitleXml (fst e) (fst (snd e)))"
    by blast
  moreover have "\<forall>e \<in> set (fetched ?st'). from_titles titles target e"
    unfolding f using e inv by (simp add: run_from_def)
  ultimately show ?thesis unfolding run_from_def by blast
qed

lemma get_title_content_skipped:
  assumes "skip_problematic_titles cfg" "n \<in> set problematic_titles"
    and "fr \<or> \<not> cache_results cfg \<or> title_content_cache s (n, d) = None"
  shows "get_title_content up cfg n d mr fr s = (None, s)"
  using assms by (auto simp: get_title_content_def)

lemma run_without_process_title:
  assumes inv: "run_without bypass n st"
    and skip: "skip_problematic_titles cfg" "n \<in> set problematic_titles"
    and by_pass: "bypass \<Longrightarrow> fr \<or> \<not> cache_results cfg"
  shows "run_without bypass n (process_title up cfg libs target fr ti st)"
proof (cases "reserved ti")
  case True
  then show ?thesis using inv by (simp add: process_title_reserved)
next
  case False
  from process_title_step [OF False, of up cfg libs target fr st]
  obtain c k where eq: "process_title up cfg libs target fr ti st =
       st\<lparr>word_counts := (if truthy c
                           then dict_set (number ti) (count_words_in_xml libs c) (word_counts st)
                           else word_counts st),
          fetched := fetched st @ [(number ti, use_date target (latest_amended_on ti), c)],
          sess := after_fetch cfg (number ti) (use_date target (latest_amended_on ti)) c k (sess st)\<rparr>"
    and c: "c = fst (get_title_content up cfg (number ti) (use_date target (latest_amended_on ti)) 1 fr (sess st))"
    by blast
  let ?st' = "process_title up cfg libs target fr ti st"
  from inv have i1: "\<forall>e \<in> set (fetched st). fst e = n \<longrightarrow> snd (snd e) = None"
    and i2: "bypass \<or> (\<forall>d. title_content_cache (sess st) (n, d) = None)"
    unfolding run_without_def by blast+
  show ?thesis
  proof (cases "number ti = n")
    case True
    have "fr \<or> \<not> cache_results cfg
            \<or> title_content_cache (sess st) (n, use_date target (latest_amended_on ti)) = None"
    proof (cases bypass)
      case True
      then show ?thesis using by_pass by blast
    next
      case False
      with i2 have "\<forall>d. title_content_cache (sess st) (n, d) = None" by simp
      then have "title_content_cache (sess st) (n, use_date target (latest_amended_on ti)) = None"
        by (rule spec)
      then show ?thesis by simp
    qed
    then have "get_title_content up cfg n (use_date target (latest_amended_on ti)) 1 fr (sess st)
                 = (None, sess st)"
      by (rule get_title_content_skipped [OF skip])
    then have "c = None"
      unfolding c True by simp
    then show ?thesis
      unfolding run_without_def eq using i1 i2 by (auto simp add: after_fetch_def)
  next
    case False
    then show ?thesis
      unfolding run_without_def eq using i1 i2 by (auto simp add: after_fetch_cache_other)
  qed
qed

lemma fold_run_ok:
  "run_ok libs st \<Longrightarrow> run_ok libs (fold (process_title up cfg libs target fr) ts st)"
  by (induction ts arbitrary: st) (simp_all add: run_ok_process_title)

lemma fold_run_from:
  "set ts \<subseteq> set titles \<Longrightarrow> run_from titles target s st \<Longrightarrow>
   run_from titles target s (fold (process_title up cfg libs target fr) ts st)"
  by (induction ts arbitrary: st) (simp_all add: run_from_process_title)

lemma fold_run_without:
  assumes "skip_problematic_titles cfg" "n \<in> set problematic_titles"
    and "bypass \<Longrightarrow> fr \<or> \<not> cache_results cfg"
  shows "run_without bypass n st \<Longrightarrow>
   run_without bypass n (fold (process_title up cfg libs target fr) ts st)"
  by (induction ts arbitrary: st) (simp_all add: run_without_process_title [OF _ assms])

lemma find_mem: "find P xs = Some x \<Longrightarrow> x \<in> set xs"
  by (induction xs) (auto split: if_splits)

lemma set_relevant_titles: "set (relevant_titles titles_info tfa) \<subseteq> set titles_info"
proof -
  have 1: "set (filter (\<lambda>t. PStr (str_int (number t)) \<in> set tfa) titles_info) \<subseteq> set titles_info"
    by auto
  have 2: "set (concat (map (\<lambda>title_num.
                        case find (\<lambda>t. str_int (number t) = py_str title_num) titles_info of
                          Some title_match \<Rightarrow> [title_match]
                        | None \<Rightarrow> []) tfa)) \<subseteq> set titles_info"
    by (auto split: option.splits dest: find_mem [OF sym])
  have 3: "set (take 10 titles_info) \<subseteq> set titles_info"
    by (rule set_take_subset)
  show ?thesis
    unfolding relevant_titles_def Let_def using 1 2 3 by (simp only: split: if_splits) auto
qed

lemma process_title_fetch_errors:
  "process_title up cfg libs target fr ti (st\<lparr>fetch_errors := x\<rparr>)
     = (process_title up cfg libs target fr ti st)\<lparr>fetch_errors := x\<rparr>"
  by (simp add: process_title_def split: prod.splits)

lemma fold_process_title_fetch_errors:
  "fold (process_title up cfg libs target fr) ts (st\<lparr>fetch_errors := x\<rparr>)
     = (fold (process_title up cfg libs target fr) ts st)\<lparr>fetch_errors := x\<rparr>"
  by (induction ts arbitrary: st) (simp_all add: process_title_fetch_errors)

lemma process_title_composition_eq:
  "\<exists>x. process_title_composition up cfg libs target ti st
     = (process_title up cfg libs target (\<not> cache_results cfg) ti st)\<lparr>fetch_errors := x\<rparr>"
proof (cases "reserved ti")
  case True
  then have "process_title_composition up cfg libs target ti st
     = (process_title up cfg libs target (\<not> cache_results cfg) ti st)\<lparr>fetch_errors := fetch_errors st\<rparr>"
    by (simp add: process_title_composition_def process_title_def)
  then show ?thesis by blast
next
  case False
  then have "process_title_composition up cfg libs target ti st
     = (process_title up cfg libs target (\<not> cache_results cfg) ti st)
         \<lparr>fetch_errors := fetch_errors (process_title_composition up cfg libs target ti st)\<rparr>"
    by (simp add: process_title_composition_def process_title_def split: prod.splits)
  then show ?thesis by blast
qed

lemma fold_process_title_composition_eq:
  "\<exists>x. fold (process_title_composition up cfg libs target) ts st
     = (fold (process_title up cfg libs target (\<not> cache_results cfg)) ts st)\<lparr>fetch_errors := x\<rparr>"
proof (induction ts arbitrary: st)
  case Nil
  have "fold (process_title_composition up cfg libs target) [] st
     = (fold (process_title up cfg libs target (\<not> cache_results cfg)) [] st)\<lparr>fetch_errors := fetch_errors st\<rparr>"
    by simp
  then show ?case by (rule exI)
next
  case (Cons t ts)
  obtain y where y: "process_title_composition up cfg libs target t st
     = (process_title up cfg libs target (\<not> cache_results cfg) t st)\<lparr>fetch_errors := y\<rparr>"
    using process_title_composition_eq by blast
  obtain x where x: "fold (process_title_composition up cfg libs target) ts
        ((process_title up cfg libs target (\<not> cache_results cfg) t st)\<lparr>fetch_errors := y\<rparr>)
     = (fold (process_title up cfg libs target (\<not> cache_results cfg)) ts
        ((process_title up cfg libs target (\<not> cache_results cfg) t st)\<lparr>fetch_errors := y\<rparr>))\<lparr>fetch_errors := x\<rparr>"
    using Cons.IH by blast
  show ?case
    by (intro exI [of _ x]) (simp add: y x fold_process_title_fetch_errors)
qed

lemma process_titles_run_ok:
  "run_ok libs (process_titles up cfg libs target fr cap titles_info s)"
  unfolding process_titles_def by (rule fold_run_ok) (rule run_ok_start)

lemma process_titles_run_from:
  "run_from titles_info target s (process_titles up cfg libs target fr cap titles_info s)"
  unfolding process_titles_def
  by (rule fold_run_from) (rule set_take_subset, rule run_from_start)

lemma run_state_fetch_errors_simps:
  "run_ok libs (st\<lparr>fetch_errors := x\<rparr>) = run_ok libs st"
  "run_from titles target s (st\<lparr>fetch_errors := x\<rparr>) = run_from titles target s st"
  "run_without b n (st\<lparr>fetch_errors := x\<rparr>) = run_without b n st"
  by (simp_all add: run_ok_def run_from_def run_without_def)

lemma composition_loop_run_ok:
  "run_ok libs (fold (process_title_composition up cfg libs target) ts (start_run s))"
proof -
  obtain x where "fold (process_title_composition up cfg libs target) ts (start_run s)
     = (fold (process_title up cfg libs target (\<not> cache_results cfg)) ts (start_run s))\<lparr>fetch_errors := x\<rparr>"
    using fold_process_title_composition_eq by blast
  then show ?thesis
    by (simp add: run_state_fetch_errors_simps fold_run_ok run_ok_start)
qed

lemma composition_loop_run_from:
  "set ts \<subseteq> set titles \<Longrightarrow>
   run_from titles target s (fold (process_title_composition up cfg libs target) ts (start_run s))"
proof -
  assume sub: "set ts \<subseteq> set titles"
  obtain x where "fold (process_title_composition up cfg libs target) ts (start_run s)
     = (fold (process_title up cfg libs target (\<not> cache_results cfg)) ts (start_run s))\<lparr>fetch_errors := x\<rparr>"
    using fold_process_title_composition_eq by blast
  then show ?thesis
    by (simp add: run_state_fetch_errors_simps fold_run_from [OF sub] run_from_start)
qed

lemma composition_loop_run_without:
  assumes "skip_problematic_titles cfg" "n \<in> set problematic_titles"
    and "run_without (\<not> cache_results cfg) n (start_run s)"
  shows "run_without (\<not> cache_results cfg) n
           (fold (process_title_composition up cfg libs target) ts (start_run s))"
proof -
  obtain x where "fold (process_title_composition up cfg libs target) ts (start_run s)
     = (fold (process_title up cfg libs target (\<not> cache_results cfg)) ts (start_run s))\<lparr>fetch_errors := x\<rparr>"
    using fold_process_title_composition_eq by blast
  moreover have "run_without (\<not> cache_results cfg) n
     (fold (process_title up cfg libs target (\<not> cache_results cfg)) ts (start_run s))"
    by (rule fold_run_without [OF assms(1,2) _ assms(3)]) simp
  ultimately show ?thesis
    by (simp add: run_state_fetch_errors_simps)
qed

lemma run_ok_keyD:
  "run_ok libs st \<Longrightarrow> n \<in> fst ` set (word_counts st) \<Longrightarrow>
   \<exists>e \<in> set (fetched st). fst e = n \<and> truthy (snd (snd e))"
  unfolding run_ok_def by blast

lemma run_without_no_key:
  assumes "run_ok libs st" "run_without b n st"
  shows "n \<notin> fst ` set (word_counts st)"
proof
  assume "n \<in> fst ` set (word_counts st)"
  from run_ok_keyD [OF assms(1) this] obtain e where
    "e \<in> set (fetched st)" "fst e = n" "truthy (snd (snd e))" by blast
  moreover from this assms(2) have "snd (snd e) = None"
    unfolding run_without_def by blast
  ultimately show False by (simp add: truthy_def)
qed

lemma run_from_reserved:
  assumes res: "\<forall>t \<in> set titles. number t = n \<longrightarrow> reserved t"
    and ok: "run_ok libs st" and prov: "run_from titles target s st"
  shows "n \<notin> fst ` set (word_counts st)"
    and "\<forall>e \<in> set (fetched st). fst e \<noteq> n"
    and "\<forall>d. TitleXml n d \<notin> set (drop (length (requests_log s)) (requests_log (sess st)))"
proof -
  from prov have src: "\<forall>e \<in> set (fetched st). from_titles titles target e"
    unfolding run_from_def by blast
  show f: "\<forall>e \<in> set (fetched st). fst e \<noteq> n"
  proof
    fix e assume "e \<in> set (fetched st)"
    with src have "from_titles titles target e" by blast
    then obtain t where "t \<in> set titles" "\<not> reserved t" "fst e = number t"
      unfolding from_titles_def by blast
    with res show "fst e \<noteq> n" by auto
  qed
  show "n \<notin> fst ` set (word_counts st)"
    using run_ok_keyD [OF ok, of n] f by blast
  from prov obtain new where new: "requests_log (sess st) = requests_log s @ new"
    and r: "\<forall>r \<in> set new. \<exists>e \<in> set (fetched st). r = TitleXml (fst e) (fst (snd e))"
    unfolding run_from_def by blast
  have "drop (length (requests_log s)) (requests_log (sess st)) = new"
    by (simp add: new)
  moreover have "TitleXml n d \<notin> set new" for d
    using r f by auto
  ultimately show "\<forall>d. TitleXml n d \<notin> set (drop (length (requests_log s)) (requests_log (sess st)))"
    by simp
qed

lemma run_from_requests:
  assumes "run_from titles target s st"
  shows "\<exists>new. requests_log (sess st) = requests_log s @ new
           \<and> (\<forall>r \<in> set new. unreserved_request titles r)"
proof -
  from assms obtain new where new: "requests_log (sess st) = requests_log s @ new"
    and r: "\<forall>r \<in> set new. \<exists>e \<in> set (fetched st). r = TitleXml (fst e) (fst (snd e))"
    and src: "\<forall>e \<in> set (fetched st). from_titles titles target e"
    unfolding run_from_def by blast
  have "unreserved_request titles q" if "q \<in> set new" for q
  proof -
    from r that obtain e where e: "e \<in> set (fetched st)" "q = TitleXml (fst e) (fst (snd e))"
      by blast
    with src have "from_titles titles target e" by blast
    then obtain t where "t \<in> set titles" "\<not> reserved t" "fst e = number t"
      unfolding from_titles_def by blast
    with e show ?thesis unfolding unreserved_request_def by auto
  qed
  with new show ?thesis by blast
qed

lemma years_requests:
  "\<exists>new. requests_log (snd (fold (\<lambda>year (word_counts_by_year, s').
                 case year_word_counts up cfg libs idx titles_info cap year s' of
                   (agency_word_counts, st) \<Rightarrow>
                     (dict_set year agency_word_counts word_counts_by_year, sess st))
           years (acc, s))) = requests_log s @ new
        \<and> (\<forall>r \<in> set new. unreserved_request titles_info r)"
proof (induction years arbitrary: acc s)
  case Nil
  show ?case by simp
next
  case (Cons y ys)
  let ?st = "process_titles up cfg libs (Date y 1 1) False cap titles_info s"
  obtain n1 where n1: "requests_log (sess ?st) = requests_log s @ n1"
    "\<forall>r \<in> set n1. unreserved_request titles_info r"
    using run_from_requests [OF process_titles_run_from [of titles_info "(Date y 1 1)" s up cfg libs False cap]]
    by blast
  obtain n2 where n2: "requests_log (snd (fold (\<lambda>year (word_counts_by_year, s').
                 case year_word_counts up cfg libs idx titles_info cap year s' of
                   (agency_word_counts, st) \<Rightarrow>
                     (dict_set year agency_word_counts word_counts_by_year, sess st))
           ys (dict_set y (attribute (word_counts ?st) idx) acc, sess ?st))) = requests_log (sess ?st) @ n2"
    "\<forall>r \<in> set n2. unreserved_request titles_info r"
    using Cons.IH by blast
  show ?case
    by (intro exI [of _ "n1 @ n2"]) (use n1 n2 in \<open>auto simp: year_word_counts_def Let_def\<close>)
qed

lemma calculate_word_counts_over_time_requests:
  "\<exists>new. requests_log (snd (calculate_word_counts_over_time up cfg libs agencies titles_info years cap s))
          = requests_log s @ new
        \<and> (\<forall>r \<in> set new. unreserved_request titles_info r)"
  unfolding calculate_word_counts_over_time_def Let_def by (rule years_requests)

lemma composition_run_eq:
  "composition_run (composition up cfg libs agencies titles_info selected s)
     = (if dict_get (create_agency_title_mapping agencies) selected [] = [] then start_run s
        else fold (process_title_composition up cfg libs (target_date cfg))
               (relevant_titles titles_info
                  (dict_get (create_agency_title_mapping agencies) selected []))
               (start_run s))"
  by (simp add: composition_run_def composition_def Let_def start_run_def)

lemma composition_run_ok:
  "run_ok libs (composition_run (composition up cfg libs agencies titles_info selected s))"
  unfolding composition_run_eq by (simp add: run_ok_start composition_loop_run_ok)

lemma composition_run_from:
  "run_from titles_info (target_date cfg) s
     (composition_run (composition up cfg libs agencies titles_info selected s))"
  unfolding composition_run_eq
  by (simp add: run_from_start composition_loop_run_from [OF set_relevant_titles])

lemma get_agencies_log:
  "\<exists>pre. requests_log (snd (get_agencies up da cfg fr s)) = requests_log s @ pre
     \<and> set pre \<subseteq> {AgenciesJson}"
proof (cases "\<not> fr \<and> cache_results cfg \<and> agencies_cache s \<noteq> None")
  case True
  then have "snd (get_agencies up da cfg fr s) = s" by (simp add: get_agencies_def)
  then show ?thesis by (intro exI [of _ "[]"]) simp
next
  case False
  then have "requests_log (snd (get_agencies up da cfg fr s)) = requests_log s @ [AgenciesJson]"
    by (auto simp add: get_agencies_def send_def split: response.splits option.splits)
  then show ?thesis by (intro exI [of _ "[AgenciesJson]"]) simp
qed

lemma get_titles_log:
  "\<exists>pre. requests_log (snd (get_titles up dt cfg fr s)) = requests_log s @ pre
     \<and> set pre \<subseteq> {TitlesJson}"
proof (cases "\<not> fr \<and> cache_results cfg \<and> titles_cache s \<noteq> None")
  case True
  then have "snd (get_titles up dt cfg fr s) = s" by (simp add: get_titles_def)
  then show ?thesis by (intro exI [of _ "[]"]) simp
next
  case False
  then have "requests_log (snd (get_titles up dt cfg fr s)) = requests_log s @ [TitlesJson]"
    by (auto simp add: get_titles_def send_def split: response.splits option.splits)
  then show ?thesis by (intro exI [of _ "[TitlesJson]"]) simp
qed

lemma snapshot_compute_run:
  obtains s2 pre where
    "requests_log s2 = requests_log s @ pre"
    "set pre \<subseteq> {AgenciesJson, TitlesJson}"
    "res_title_word_counts (fst (snapshot_compute up da dt cfg libs s))
       = word_counts (process_titles up cfg libs (target_date cfg) (\<not> cache_results cfg)
           (max_titles cfg)
           (res_titles_info (fst (snapshot_compute up da dt cfg libs s))) s2)"
    "requests_log (snd (snapshot_compute up da dt cfg libs s))
       = requests_log (sess (process_titles up cfg libs (target_date cfg)
           (\<not> cache_results cfg) (max_titles cfg)
           (res_titles_info (fst (snapshot_compute up da dt cfg libs s))) s2))"
proof -
  let ?fr = "\<not> cache_results cfg"
  let ?s1 = "snd (get_agencies up da cfg ?fr s)"
  let ?s2 = "snd (get_titles up dt cfg ?fr ?s1)"
  obtain p1 where p1: "requests_log ?s1 = requests_log s @ p1" "set p1 \<subseteq> {AgenciesJson}"
    using get_agencies_log by blast
  obtain p2 where p2: "requests_log ?s2 = requests_log ?s1 @ p2" "set p2 \<subseteq> {TitlesJson}"
    using get_titles_log by blast
  have 1: "requests_log ?s2 = requests_log s @ (p1 @ p2)"
    using p1 p2 by simp
  have 2: "set (p1 @ p2) \<subseteq> {AgenciesJson, TitlesJson}"
    using p1 p2 by auto
  have 3: "res_title_word_counts (fst (snapshot_compute up da dt cfg libs s))
       = word_counts (process_titles up cfg libs (target_date cfg) ?fr (max_titles cfg)
           (res_titles_info (fst (snapshot_compute up da dt cfg libs s))) ?s2)"
    by (simp add: snapshot_compute_def Let_def split: prod.splits)
  have 4: "requests_log (snd (snapshot_compute up da dt cfg libs s))
       = requests_log (sess (process_titles up cfg libs (target_date cfg) ?fr (max_titles cfg)
           (res_titles_info (fst (snapshot_compute up da dt cfg libs s))) ?s2))"
    by (simp add: snapshot_compute_def Let_def split: prod.splits)
  from 1 2 3 4 that show thesis by blast
qed

lemma snapshot_compute_reserved:
  assumes res: "\<forall>t \<in> set (res_titles_info (fst (snapshot_compute up da dt cfg libs s))).
                  number t = n \<longrightarrow> reserved t"
  shows "n \<notin> fst ` set (res_title_word_counts (fst (snapshot_compute up da dt cfg libs s)))"
    and "\<forall>d. TitleXml n d \<notin> set (drop (length (requests_log s))
               (requests_log (snd (snapshot_compute up da dt cfg libs s))))"
proof -
  let ?ti = "res_titles_info (fst (snapshot_compute up da dt cfg libs s))"
  obtain s2 pre where pre: "requests_log s2 = requests_log s @ pre"
      "set pre \<subseteq> {AgenciesJson, TitlesJson}"
    and wc: "res_title_word_counts (fst (snapshot_compute up da dt cfg libs s))
       = word_counts (process_titles up cfg libs (target_date cfg) (\<not> cache_results cfg)
           (max_titles cfg) ?ti s2)"
    and lg: "requests_log (snd (snapshot_compute up da dt cfg libs s))
       = requests_log (sess (process_titles up cfg libs (target_date cfg)
           (\<not> cache_results cfg) (max_titles cfg) ?ti s2))"
    using snapshot_compute_run [where s = s and up = up and da = da and cfg = cfg and dt = dt
        and libs = libs]
    by blast
  let ?st = "process_titles up cfg libs (target_date cfg) (\<not> cache_results cfg)
           (max_titles cfg) ?ti s2"
  have ok: "run_ok libs ?st" by (rule process_titles_run_ok)
  have prov: "run_from ?ti (target_date cfg) s2 ?st" by (rule process_titles_run_from)
  note r = run_from_reserved [OF res ok prov]
  show "n \<notin> fst ` set (res_title_word_counts (fst (snapshot_compute up da dt cfg libs s)))"
    unfolding wc by (rule r(1))
  obtain new where new: "requests_log (sess ?st) = requests_log s2 @ new"
    and un: "\<forall>q \<in> set new. unreserved_request ?ti q"
    using run_from_requests [OF prov] by blast
  have d: "drop (length (requests_log s)) (requests_log (snd (snapshot_compute up da dt cfg libs s)))
          = pre @ new"
    unfolding lg new pre by simp
  have "TitleXml n d \<notin> set (pre @ new)" for d
  proof
    assume "TitleXml n d \<in> set (pre @ new)"
    then consider "TitleXml n d \<in> set pre" | "TitleXml n d \<in> set new" by auto
    then show False
    proof cases
      case 1
      with pre(2) show False by auto
    next
      case 2
      with un have "unreserved_request ?ti (TitleXml n d)" by blast
      then obtain t where "t \<in> set ?ti" "\<not> reserved t" "number t = n"
        unfolding unreserved_request_def by auto
      with res show False by blast
    qed
  qed
  then show "\<forall>d. TitleXml n d \<notin> set (drop (length (requests_log s))
               (requests_log (snd (snapshot_compute up da dt cfg libs s))))"
    unfolding d by blast
qed

section \<open>Decimal numerals are read back\<close>

lemma digit_cases: "d < 10 \<Longrightarrow> d \<in> {0, 1, 2, 3, 4, 5, 6, 7, 8, 9 :: nat}"
  by auto

lemma digit_val_digit_char: "d < 10 \<Longrightarrow> digit_val (digit_char d) = d"
  using digit_cases [of d] by (auto simp: digit_val_def digit_char_def)

lemma digit_char_not_minus: "d < 10 \<Longrightarrow> digit_char d \<noteq> CHR ''-''"
  using digit_cases [of d] by (auto simp: digit_char_def)

lemma val_of_snoc: "val_of (s @ [c]) = 10 * val_of s + digit_val c"
  by (simp add: val_of_def)

lemma val_of_str_nat: "val_of (str_nat n) = n"
proof (induction n rule: str_nat.induct)
  case (1 n)
  show ?case
  proof (cases "n < 10")
    case True
    then show ?thesis
      by (simp add: str_nat.simps [of n] val_of_def digit_val_digit_char)
  next
    case False
    then have "val_of (str_nat n) = 10 * val_of (str_nat (n div 10)) + digit_val (digit_char (n mod 10))"
      by (simp add: str_nat.simps [of n] val_of_snoc)
    also have "\<dots> = 10 * (n div 10) + n mod 10"
      using "1.IH" [OF False] by (simp add: digit_val_digit_char)
    finally show ?thesis by simp
  qed
qed

lemma str_nat_inj: "str_nat m = str_nat n \<Longrightarrow> m = n"
  by (metis val_of_str_nat)

lemma hd_str_nat: "hd (str_nat n) \<noteq> CHR ''-'' \<and> str_nat n \<noteq> []"
proof (induction n rule: str_nat.induct)
  case (1 n)
  show ?case
  proof (cases "n < 10")
    case True
    then show ?thesis by (simp add: str_nat.simps [of n] digit_char_not_minus)
  next
    case False
    then show ?thesis using "1.IH" [OF False] by (simp add: str_nat.simps [of n])
  qed
qed

lemma str_int_inj: "str_int i = str_int j \<Longrightarrow> i = j"
proof -
  assume eq: "str_int i = str_int j"
  consider "i < 0" "j < 0" | "0 \<le> i" "0 \<le> j" | "i < 0" "0 \<le> j" | "0 \<le> i" "j < 0"
    by linarith
  then show ?thesis
  proof cases
    case 1
    with eq have "str_nat (nat (- i)) = str_nat (nat (- j))" by (simp add: str_int_def)
    then have "nat (- i) = nat (- j)" by (rule str_nat_inj)
    with 1 show ?thesis by simp
  next
    case 2
    with eq have "str_nat (nat i) = str_nat (nat j)" by (simp add: str_int_def)
    then have "nat i = nat j" by (rule str_nat_inj)
    with 2 show ?thesis by simp
  next
    case 3
    with eq have "CHR ''-'' # str_nat (nat (- i)) = str_nat (nat j)" by (simp add: str_int_def)
    then have "hd (str_nat (nat j)) = CHR ''-''" by (metis list.sel(1))
    with hd_str_nat show ?thesis by blast
  next
    case 4
    with eq have "str_nat (nat i) = CHR ''-'' # str_nat (nat (- j))" by (simp add: str_int_def)
    then have "hd (str_nat (nat i)) = CHR ''-''" by (metis list.sel(1))
    with hd_str_nat show ?thesis by blast
  qed
qed

section \<open>The titles of the composition analysis\<close>

lemma find_None_iff': "find P xs = None \<longleftrightarrow> (\<forall>x \<in> set xs. \<not> P x)"
  by (induction xs) auto

lemma find_Some_P: "find P xs = Some x \<Longrightarrow> P x"
  by (induction xs) (auto split: if_splits)

lemma find_Some_distinct:
  "distinct (map f xs) \<Longrightarrow> find (\<lambda>x. f x = a) xs = Some m \<longleftrightarrow> m \<in> set xs \<and> f m = a"
  by (induction xs) (auto split: if_splits)

lemma set_matches:
  "set (matches titles_info tfa)
     = {m. \<exists>v \<in> set tfa. find (\<lambda>t. str_int (number t) = py_str v) titles_info = Some m}"
  by (auto simp: matches_def split: option.splits)

lemma relevant_titles_cases:
  "relevant_titles titles_info tfa =
     (let r1 = filter (\<lambda>t. PStr (str_int (number t)) \<in> set tfa) titles_info
      in if r1 \<noteq> [] then r1
         else if matches titles_info tfa \<noteq> [] then matches titles_info tfa
         else take 10 titles_info)"
  by (simp add: relevant_titles_def matches_def Let_def)

lemma matches_nonempty:
  assumes "\<exists>t \<in> set titles_info. owned tfa (number t)"
  shows "matches titles_info tfa \<noteq> []"
proof -
  from assms obtain t v where t: "t \<in> set titles_info" and v: "v \<in> set tfa"
    and eq: "str_int (number t) = py_str v"
    unfolding owned_def by blast
  then have "find (\<lambda>t. str_int (number t) = py_str v) titles_info \<noteq> None"
    by (auto simp: find_None_iff')
  then obtain m where "find (\<lambda>t. str_int (number t) = py_str v) titles_info = Some m" by blast
  with v have "m \<in> set (matches titles_info tfa)" unfolding set_matches by blast
  then show ?thesis by auto
qed

lemma relevant_titles_owned:
  assumes "\<exists>t \<in> set titles_info. owned tfa (number t)"
    and "t \<in> set (relevant_titles titles_info tfa)"
  shows "owned tfa (number t)"
proof (cases "filter (\<lambda>t. PStr (str_int (number t)) \<in> set tfa) titles_info = []")
  case False
  then have "relevant_titles titles_info tfa = filter (\<lambda>t. PStr (str_int (number t)) \<in> set tfa) titles_info"
    by (simp add: relevant_titles_cases)
  with assms(2) have "PStr (str_int (number t)) \<in> set tfa" by simp
  moreover have "str_int (number t) = py_str (PStr (str_int (number t)))" by simp
  ultimately show ?thesis unfolding owned_def by blast
next
  case True
  then have "relevant_titles titles_info tfa = matches titles_info tfa"
    using matches_nonempty [OF assms(1)] by (simp add: relevant_titles_cases)
  with assms(2) have "t \<in> set (matches titles_info tfa)" by simp
  then obtain v where "v \<in> set tfa"
    "find (\<lambda>t. str_int (number t) = py_str v) titles_info = Some t"
    unfolding set_matches by blast
  then show ?thesis unfolding owned_def using find_Some_P by fastforce
qed

lemma relevant_titles_fallback:
  assumes "\<not> (\<exists>t \<in> set titles_info. owned tfa (number t))"
  shows "relevant_titles titles_info tfa = take 10 titles_info"
proof -
  have 1: "filter (\<lambda>t. PStr (str_int (number t)) \<in> set tfa) titles_info = []"
  proof (rule ccontr)
    assume "filter (\<lambda>t. PStr (str_int (number t)) \<in> set tfa) titles_info \<noteq> []"
    then obtain t where "t \<in> set titles_info" "PStr (str_int (number t)) \<in> set tfa"
      by (metis (mono_tags, lifting) filter_False)
    moreover have "str_int (number t) = py_str (PStr (str_int (number t)))" by simp
    ultimately show False using assms unfolding owned_def by blast
  qed
  have 2: "matches titles_info tfa = []"
  proof (rule ccontr)
    assume "matches titles_info tfa \<noteq> []"
    then obtain m where "m \<in> set (matches titles_info tfa)" by (meson last_in_set)
    then obtain v where v: "v \<in> set tfa"
      and f: "find (\<lambda>t. str_int (number t) = py_str v) titles_info = Some m"
      unfolding set_matches by blast
    from f have "m \<in> set titles_info" by (rule find_mem)
    moreover from f have "str_int (number m) = py_str v" by (rule find_Some_P)
    ultimately show False using assms v unfolding owned_def by blast
  qed
  show ?thesis by (simp add: relevant_titles_cases 1 2)
qed

lemma relevant_titles_ints:
  assumes ints: "\<forall>v \<in> set tfa. \<exists>i. v = PInt i"
    and dist: "distinct (map number titles_info)"
    and ex: "\<exists>t \<in> set titles_info. PInt (number t) \<in> set tfa"
  shows "set (relevant_titles titles_info tfa) = {t \<in> set titles_info. PInt (number t) \<in> set tfa}"
proof -
  have 1: "filter (\<lambda>t. PStr (str_int (number t)) \<in> set tfa) titles_info = []"
    using ints by (auto simp: filter_empty_conv)
  have f: "find (\<lambda>t. str_int (number t) = py_str (PInt i)) titles_info = Some m
             \<longleftrightarrow> m \<in> set titles_info \<and> number m = i" for i m
  proof -
    have "(\<lambda>t. str_int (number t) = py_str (PInt i)) = (\<lambda>t. number t = i)"
      by (auto dest: str_int_inj)
    then have "find (\<lambda>t. str_int (number t) = py_str (PInt i)) titles_info
                 = find (\<lambda>t. number t = i) titles_info"
      by (rule arg_cong)
    then show ?thesis using find_Some_distinct [OF dist, of i m] by (simp only:)
  qed
  have "set (matches titles_info tfa) = {t \<in> set titles_info. PInt (number t) \<in> set tfa}"
  proof (intro set_eqI iffI)
    fix m assume "m \<in> set (matches titles_info tfa)"
    then obtain v where v: "v \<in> set tfa"
      and fv: "find (\<lambda>t. str_int (number t) = py_str v) titles_info = Some m"
      unfolding set_matches by blast
    from ints v obtain i where i: "v = PInt i" by blast
    with fv f have "m \<in> set titles_info" "number m = i" by auto
    with v i show "m \<in> {t \<in> set titles_info. PInt (number t) \<in> set tfa}" by simp
  next
    fix m assume "m \<in> {t \<in> set titles_info. PInt (number t) \<in> set tfa}"
    then have "m \<in> set titles_info" "PInt (number m) \<in> set tfa" by auto
    moreover from this have "find (\<lambda>t. str_int (number t) = py_str (PInt (number m))) titles_info = Some m"
      using f by blast
    ultimately show "m \<in> set (matches titles_info tfa)" unfolding set_matches by blast
  qed
  moreover from this ex have "matches titles_info tfa \<noteq> []" by auto
  ultimately show ?thesis by (simp add: relevant_titles_cases 1)
qed

lemma fetch_title_max_titles:
  "fetch_title up (cfg\<lparr>max_titles := k\<rparr>) n d mr r s = fetch_title up cfg n d mr r s"
proof (induction up cfg n d mr r s rule: fetch_title.induct)
  case (1 up cfg n d mr r s)
  obtain rsp s' where snd: "send up (TitleXml n d) s = (rsp, s')" by (cases "send up (TitleXml n d) s")
  show ?case
  proof (cases "r \<le> mr")
    case False
    then show ?thesis
      by (simp add: fetch_title.simps [of up cfg n d mr r s]
          fetch_title.simps [of up "cfg\<lparr>max_titles := k\<rparr>" n d mr r s])
  next
    case True
    note le = this
    show ?thesis
    proof (cases rsp)
      case (Response code body)
      show ?thesis
      proof (cases "code \<noteq> 200 \<and> code = 504 \<and> r + 1 \<le> mr")
        case True
        then show ?thesis
          using "1.IH"(1) [OF le snd [symmetric] Response] le snd Response
          by (simp add: fetch_title.simps [of up cfg n d mr r s]
              fetch_title.simps [of up "cfg\<lparr>max_titles := k\<rparr>" n d mr r s])
      next
        case False
        then show ?thesis
          using le snd Response
          by (auto simp add: fetch_title.simps [of up cfg n d mr r s]
              fetch_title.simps [of up "cfg\<lparr>max_titles := k\<rparr>" n d mr r s])
      qed
    next
      case Timeout
      show ?thesis
      proof (cases "r + 1 \<le> mr")
        case True
        then show ?thesis
          using "1.IH"(2) [OF le snd [symmetric] Timeout] le snd Timeout
          by (simp add: fetch_title.simps [of up cfg n d mr r s]
              fetch_title.simps [of up "cfg\<lparr>max_titles := k\<rparr>" n d mr r s])
      next
        case False
        then show ?thesis
          using le snd Timeout
          by (auto simp add: fetch_title.simps [of up cfg n d mr r s]
              fetch_title.simps [of up "cfg\<lparr>max_titles := k\<rparr>" n d mr r s])
      qed
    next
      case RequestError
      then show ?thesis
        using le snd
        by (auto simp add: fetch_title.simps [of up cfg n d mr r s]
            fetch_title.simps [of up "cfg\<lparr>max_titles := k\<rparr>" n d mr r s])
    qed
  qed
qed

lemma get_title_content_max_titles:
  "get_title_content up (cfg\<lparr>max_titles := k\<rparr>) n d mr fr s = get_title_content up cfg n d mr fr s"
proof -
  have c: "cache_results (cfg\<lparr>max_titles := k\<rparr>) = cache_results cfg"
    and sk: "skip_problematic_titles (cfg\<lparr>max_titles := k\<rparr>) = skip_problematic_titles cfg"
    by simp_all
  show ?thesis
    by (simp only: get_title_content_def fetch_title_max_titles c sk)
qed

lemma process_title_composition_max_titles:
  "process_title_composition up (cfg\<lparr>max_titles := k\<rparr>) libs target ti st
     = process_title_composition up cfg libs target ti st"
  by (simp add: process_title_composition_def get_title_content_max_titles)

lemma composition_max_titles:
  "composition up (cfg\<lparr>max_titles := k\<rparr>) libs agencies titles_info selected s
     = composition up cfg libs agencies titles_info selected s"
proof -
  have "process_title_composition up (cfg\<lparr>max_titles := k\<rparr>) libs target
          = process_title_composition up cfg libs target" for target
    by (intro ext) (rule process_title_composition_max_titles)
  then have "process_title_composition up (cfg\<lparr>max_titles := k\<rparr>) libs
               (target_date (cfg\<lparr>max_titles := k\<rparr>))
          = process_title_composition up cfg libs (target_date cfg)"
    by simp
  then show ?thesis unfolding composition_def by (simp only:)
qed

lemma composition_fetched_owned:
  assumes ex: "\<exists>t \<in> set titles_info. owned (dict_get (create_agency_title_mapping agencies) selected []) (number t)"
    and e: "e \<in> set (comp_fetched (fst (composition up cfg libs agencies titles_info selected s)))"
  shows "owned (dict_get (create_agency_title_mapping agencies) selected []) (fst e)"
proof -
  let ?tfa = "dict_get (create_agency_title_mapping agencies) selected []"
  let ?rel = "relevant_titles titles_info ?tfa"
  let ?c = "composition up cfg libs agencies titles_info selected s"
  have f: "fetched (composition_run ?c) = comp_fetched (fst ?c)"
    by (simp add: composition_run_def)
  show ?thesis
  proof (cases "?tfa = []")
    case True
    then have "comp_fetched (fst ?c) = []" by (simp add: composition_def)
    with e show ?thesis by simp
  next
    case False
    then have "composition_run ?c
      = fold (process_title_composition up cfg libs (target_date cfg)) ?rel (start_run s)"
      by (simp add: composition_run_eq)
    moreover have "run_from ?rel (target_date cfg) s
      (fold (process_title_composition up cfg libs (target_date cfg)) ?rel (start_run s))"
      by (rule composition_loop_run_from) simp
    ultimately have "run_from ?rel (target_date cfg) s (composition_run ?c)" by simp
    then have "from_titles ?rel (target_date cfg) e"
      using e f unfolding run_from_def by simp
    then obtain t where "t \<in> set ?rel" "fst e = number t"
      unfolding from_titles_def by blast
    with relevant_titles_owned [OF ex] show ?thesis by simp
  qed
qed

section \<open>Word runs and tags\<close>

lemma run_starts_from_Nil: "run_starts_from alnum prev [] = 0"
  by (simp add: run_starts_from_def)

lemma run_starts_from_Cons:
  "run_starts_from alnum prev (c # cs)
     = (if word_char alnum c \<and> \<not> prev then 1 else 0) + run_starts_from alnum (word_char alnum c) cs"
proof -
  let ?P = "\<lambda>s prev i. word_char alnum (s ! i)
              \<and> \<not> (if i = 0 then prev else word_char alnum (s ! (i - 1)))"
  have up: "[0 ..< length (c # cs)] = 0 # map Suc [0 ..< length cs]"
    by (simp add: upt_conv_Cons map_Suc_upt del: upt_Suc)
  have shift: "?P (c # cs) prev (Suc i) = ?P cs (word_char alnum c) i" for i
    by (cases i) simp_all
  have sh: "(\<lambda>i. ?P (c # cs) prev (Suc i)) = ?P cs (word_char alnum c)"
    by (rule ext) (rule shift)
  have "filter (?P (c # cs) prev) (map Suc [0 ..< length cs])
          = map Suc (filter (?P cs (word_char alnum c)) [0 ..< length cs])"
    unfolding filter_map comp_def sh ..
  then have "length (filter (?P (c # cs) prev) (map Suc [0 ..< length cs]))
          = run_starts_from alnum (word_char alnum c) cs"
    by (simp add: run_starts_from_def)
  then show ?thesis
    unfolding run_starts_from_def [of alnum prev "c # cs"] up by simp
qed

lemma run_starts_from_dropWhile:
  "run_starts_from alnum True cs = run_starts_from alnum False (dropWhile (word_char alnum) cs)"
  by (induction cs) (simp_all add: run_starts_from_Nil run_starts_from_Cons)

lemma length_findall_words: "length (findall_words alnum s) = run_starts alnum s"
  unfolding run_starts_def
proof (induction alnum s rule: findall_words.induct)
  case (1 alnum)
  then show ?case by (simp add: run_starts_from_Nil)
next
  case (2 alnum c cs)
  then show ?case
    by (simp add: run_starts_from_Cons run_starts_from_dropWhile)
qed

lemma findall_words_runs:
  "w \<in> set (findall_words alnum s) \<Longrightarrow> w \<noteq> [] \<and> (\<forall>c \<in> set w. word_char alnum c)"
proof (induction alnum s rule: findall_words.induct)
  case (1 alnum)
  then show ?case by simp
next
  case (2 alnum c cs)
  show ?case
  proof (cases "word_char alnum c")
    case True
    with 2(3) have "w = c # takeWhile (word_char alnum) cs
        \<or> w \<in> set (findall_words alnum (dropWhile (word_char alnum) cs))"
      by simp
    then show ?thesis
    proof
      assume w: "w = c # takeWhile (word_char alnum) cs"
      have "\<forall>x \<in> set (takeWhile (word_char alnum) cs). word_char alnum x"
        by (auto dest: set_takeWhileD)
      with True w show ?thesis by simp
    next
      assume "w \<in> set (findall_words alnum (dropWhile (word_char alnum) cs))"
      with 2(1) [OF True] show ?thesis .
    qed
  next
    case False
    with 2(3) have "w \<in> set (findall_words alnum cs)" by simp
    with 2(2) [OF False] show ?thesis .
  qed
qed

lemma sub_tags_no_open: "60 \<notin> set s \<Longrightarrow> sub_tags s = s"
  by (induction s) simp_all

lemma sub_tags_no_close: "62 \<notin> set s \<Longrightarrow> sub_tags s = s"
proof (induction s)
  case Nil
  then show ?case by simp
next
  case (Cons c cs)
  then have "\<forall>x \<in> set cs. x \<noteq> 62" by auto
  then have "dropWhile (\<lambda>x. x \<noteq> 62) cs = []" by simp
  with Cons show ?case by simp
qed

lemma sub_tags_prefix: "60 \<notin> set pre \<Longrightarrow> sub_tags (pre @ s) = pre @ sub_tags s"
  by (induction pre) simp_all

lemma sub_tags_tag:
  assumes "60 \<notin> set pre" "body \<noteq> []" "62 \<notin> set body"
  shows "sub_tags (pre @ 60 # body @ 62 # rest) = pre @ 32 # sub_tags rest"
proof -
  have b: "\<forall>x \<in> set body. x \<noteq> 62" using assms(3) by auto
  have t: "takeWhile (\<lambda>x. x \<noteq> 62) (body @ 62 # rest) = body"
    using b by (induction body) simp_all
  have d: "dropWhile (\<lambda>x. x \<noteq> 62) (body @ 62 # rest) = 62 # rest"
    using b by (induction body) simp_all
  have "sub_tags (60 # body @ 62 # rest) = 32 # sub_tags rest"
    using assms(2) by (simp add: t d)
  then show ?thesis using assms(1) by (simp add: sub_tags_prefix)
qed

lemma sub_tags_empty_tag:
  assumes "60 \<notin> set pre"
  shows "sub_tags (pre @ 60 # 62 # rest) = pre @ 60 # 62 # sub_tags rest"
  using assms by (simp add: sub_tags_prefix)

lemma count_words_in_xml_nonneg: "0 \<le> count_words_in_xml libs c"
  by (simp add: count_words_in_xml_def split: option.splits)

section \<open>Sessions under an upstream that never changes\<close>

lemma get_title_content_immutable:
  assumes "immutable up" "0 \<le> mr"
  shows "fst (get_title_content up cfg n d mr fr s)
     = (if \<not> fr \<and> cache_results cfg \<and> title_content_cache s (n, d) \<noteq> None
        then title_content_cache s (n, d) else uncached_content up cfg n d)"
  using assms
  by (auto simp add: get_title_content_def uncached_content_def fetch_title_immutable)

lemma get_title_content_view:
  assumes "immutable up"
  shows "fst (get_title_content up cfg n d 1 (\<not> cache_results cfg) s) = title_view up cfg s n d"
  using get_title_content_immutable [OF assms, of 1 cfg n d "\<not> cache_results cfg" s]
  by (auto simp add: title_view_def)

lemma title_view_after_fetch:
  assumes "res = title_view up cfg s n d"
  shows "title_view up cfg (after_fetch cfg n d res k s) = title_view up cfg s"
proof (intro ext)
  fix n' d'
  show "title_view up cfg (after_fetch cfg n d res k s) n' d' = title_view up cfg s n' d'"
  proof (cases "cache_results cfg \<and> res \<noteq> None \<and> (n', d') = (n, d)")
    case True
    then have "title_content_cache (after_fetch cfg n d res k s) (n', d') = res"
      by (simp add: after_fetch_def)
    with True have "title_view up cfg (after_fetch cfg n d res k s) n' d' = res"
      by (simp add: title_view_def)
    with True assms show ?thesis by simp
  next
    case False
    then have "title_content_cache (after_fetch cfg n d res k s) (n', d')
                 = title_content_cache s (n', d')"
      by (auto simp add: after_fetch_def)
    then show ?thesis by (auto simp add: title_view_def)
  qed
qed

lemma views_after_fetch:
  "agencies_view up da cfg (after_fetch cfg' n d res k s) = agencies_view up da cfg s"
  "titles_view up dt cfg (after_fetch cfg' n d res k s) = titles_view up dt cfg s"
  by (auto simp add: agencies_view_def titles_view_def after_fetch_fields)

lemma same_lists_refl: "same_lists s s"
  by (simp add: same_lists_def)

lemma same_lists_trans: "same_lists s s' \<Longrightarrow> same_lists s' s'' \<Longrightarrow> same_lists s s''"
  by (simp add: same_lists_def)

lemma same_lists_after_fetch: "same_lists s (after_fetch cfg n d res k s)"
  by (simp add: same_lists_def after_fetch_fields)

lemma process_title_by_view:
  assumes imm: "immutable up"
  shows "(word_counts (process_title up cfg libs target (\<not> cache_results cfg) ti st),
          fetched (process_title up cfg libs target (\<not> cache_results cfg) ti st))
           = view_step libs target (title_view up cfg (sess st)) ti (word_counts st, fetched st)"
    and "title_view up cfg (sess (process_title up cfg libs target (\<not> cache_results cfg) ti st))
           = title_view up cfg (sess st)"
    and "same_lists (sess st) (sess (process_title up cfg libs target (\<not> cache_results cfg) ti st))"
proof -
  let ?p = "process_title up cfg libs target (\<not> cache_results cfg) ti st"
  let ?d = "use_date target (latest_amended_on ti)"
  have "(word_counts ?p, fetched ?p)
           = view_step libs target (title_view up cfg (sess st)) ti (word_counts st, fetched st)
        \<and> title_view up cfg (sess ?p) = title_view up cfg (sess st)
        \<and> same_lists (sess st) (sess ?p)"
  proof (cases "reserved ti")
    case True
    then show ?thesis
      by (simp add: process_title_reserved view_step_def same_lists_refl)
  next
    case False
    from process_title_step [OF False, of up cfg libs target "\<not> cache_results cfg" st]
    obtain c k where eq: "?p =
       st\<lparr>word_counts := (if truthy c
                           then dict_set (number ti) (count_words_in_xml libs c) (word_counts st)
                           else word_counts st),
          fetched := fetched st @ [(number ti, ?d, c)],
          sess := after_fetch cfg (number ti) ?d c k (sess st)\<rparr>"
      and c: "c = fst (get_title_content up cfg (number ti) ?d 1 (\<not> cache_results cfg) (sess st))"
      by blast
    have cv: "c = title_view up cfg (sess st) (number ti) ?d"
      unfolding c by (rule get_title_content_view [OF imm])
    have 1: "(word_counts ?p, fetched ?p)
           = view_step libs target (title_view up cfg (sess st)) ti (word_counts st, fetched st)"
      unfolding eq using False by (simp add: view_step_def cv)
    have 2: "title_view up cfg (sess ?p) = title_view up cfg (sess st)"
      unfolding eq using title_view_after_fetch [OF cv] by simp
    have 3: "same_lists (sess st) (sess ?p)"
      unfolding eq by (simp add: same_lists_after_fetch)
    from 1 2 3 show ?thesis by blast
  qed
  then show "(word_counts ?p, fetched ?p)
           = view_step libs target (title_view up cfg (sess st)) ti (word_counts st, fetched st)"
    and "title_view up cfg (sess ?p) = title_view up cfg (sess st)"
    and "same_lists (sess st) (sess ?p)"
    by blast+
qed

lemma fold_process_title_by_view:
  assumes imm: "immutable up"
  shows "(word_counts (fold (process_title up cfg libs target (\<not> cache_results cfg)) ts st),
          fetched (fold (process_title up cfg libs target (\<not> cache_results cfg)) ts st))
           = fold (view_step libs target (title_view up cfg (sess st))) ts
               (word_counts st, fetched st)
         \<and> title_view up cfg (sess (fold (process_title up cfg libs target (\<not> cache_results cfg)) ts st))
           = title_view up cfg (sess st)
         \<and> same_lists (sess st)
             (sess (fold (process_title up cfg libs target (\<not> cache_results cfg)) ts st))"
proof (induction ts arbitrary: st)
  case Nil
  show ?case by (simp add: same_lists_refl)
next
  case (Cons t ts)
  let ?st1 = "process_title up cfg libs target (\<not> cache_results cfg) t st"
  note step = process_title_by_view [OF imm, where cfg = cfg and libs = libs
      and target = target and ti = t and st = st]
  note ih = Cons.IH [of ?st1]
  show ?case
    using ih step same_lists_trans [OF step(3)] by simp
qed

lemma send_immutable:
  "immutable up \<Longrightarrow> send up r s = (up 0 r, s\<lparr>requests_log := requests_log s @ [r]\<rparr>)"
  by (simp add: send_def immutable_def)

lemma get_agencies_view:
  assumes imm: "immutable up"
  shows "fst (get_agencies up da cfg (\<not> cache_results cfg) s) = agencies_view up da cfg s"
    and "agencies_view up da cfg (snd (get_agencies up da cfg (\<not> cache_results cfg) s))
           = agencies_view up da cfg s"
    and "title_content_cache (snd (get_agencies up da cfg (\<not> cache_results cfg) s))
           = title_content_cache s"
    and "titles_cache (snd (get_agencies up da cfg (\<not> cache_results cfg) s)) = titles_cache s"
    and "analysis_marks (snd (get_agencies up da cfg (\<not> cache_results cfg) s)) = analysis_marks s"
    and "analysis_results (snd (get_agencies up da cfg (\<not> cache_results cfg) s))
           = analysis_results s"
  by (auto simp add: get_agencies_def agencies_view_def upstream_list_def send_immutable [OF imm]
      split: response.splits option.splits)

lemma get_titles_view:
  assumes imm: "immutable up"
  shows "fst (get_titles up dt cfg (\<not> cache_results cfg) s) = titles_view up dt cfg s"
    and "titles_view up dt cfg (snd (get_titles up dt cfg (\<not> cache_results cfg) s))
           = titles_view up dt cfg s"
    and "title_content_cache (snd (get_titles up dt cfg (\<not> cache_results cfg) s))
           = title_content_cache s"
    and "agencies_cache (snd (get_titles up dt cfg (\<not> cache_results cfg) s)) = agencies_cache s"
    and "analysis_marks (snd (get_titles up dt cfg (\<not> cache_results cfg) s)) = analysis_marks s"
    and "analysis_results (snd (get_titles up dt cfg (\<not> cache_results cfg) s))
           = analysis_results s"
  by (auto simp add: get_titles_def titles_view_def upstream_list_def send_immutable [OF imm]
      split: response.splits option.splits)

lemma title_view_cong:
  "title_content_cache s' = title_content_cache s \<Longrightarrow> title_view up cfg s' = title_view up cfg s"
  by (intro ext) (auto simp add: title_view_def)

lemma agencies_view_cong:
  "agencies_cache s' = agencies_cache s \<Longrightarrow> agencies_view up da cfg s' = agencies_view up da cfg s"
  by (auto simp add: agencies_view_def)

lemma titles_view_cong:
  "titles_cache s' = titles_cache s \<Longrightarrow> titles_view up dt cfg s' = titles_view up dt cfg s"
  by (auto simp add: titles_view_def)

lemma snapshot_compute_by_views:
  assumes imm: "immutable up"
  shows "fst (snapshot_compute up da dt cfg libs s)
           = snapshot_by_views (agencies_view up da cfg s) (titles_view up dt cfg s)
               (title_view up cfg s) libs (target_date cfg) (max_titles cfg)"
    and "agencies_view up da cfg (snd (snapshot_compute up da dt cfg libs s))
           = agencies_view up da cfg s"
    and "titles_view up dt cfg (snd (snapshot_compute up da dt cfg libs s))
           = titles_view up dt cfg s"
    and "title_view up cfg (snd (snapshot_compute up da dt cfg libs s))
           = title_view up cfg s"
    and "analysis_marks (snd (snapshot_compute up da dt cfg libs s)) = analysis_marks s"
proof -
  let ?fr = "\<not> cache_results cfg"
  define s1 where "s1 = snd (get_agencies up da cfg ?fr s)"
  define s2 where "s2 = snd (get_titles up dt cfg ?fr s1)"
  define av where "av = agencies_view up da cfg s"
  define tv where "tv = titles_view up dt cfg s"
  define ts where "ts = take (min (max_titles cfg) (length tv)) tv"
  define st where "st = fold (process_title up cfg libs (target_date cfg) ?fr) ts (start_run s2)"
  define res where "res = \<lparr>res_agencies = av, res_titles_info = tv,
                 res_title_word_counts = word_counts st,
                 res_agency_word_counts = attribute (word_counts st)
                   (reverse_mapping (create_agency_title_mapping av))\<rparr>"
  note ga = get_agencies_view [OF imm, where da = da and cfg = cfg and s = s]
  note gt = get_titles_view [OF imm, where dt = dt and cfg = cfg and s = s1]
  have a1: "fst (get_agencies up da cfg ?fr s) = av"
    unfolding av_def by (rule ga(1))
  have t0: "titles_view up dt cfg s1 = tv"
    unfolding tv_def s1_def by (rule titles_view_cong) (rule ga(4))
  have t1: "fst (get_titles up dt cfg ?fr s1) = tv"
    using gt(1) t0 by simp
  have ga_pair: "get_agencies up da cfg ?fr s = (av, s1)"
    using a1 by (simp add: s1_def prod_eq_iff)
  have gt_pair: "get_titles up dt cfg ?fr s1 = (tv, s2)"
    using t1 by (simp add: s2_def prod_eq_iff)
  have sc: "snapshot_compute up da dt cfg libs s
        = (res, if cache_results cfg
                then (sess st)\<lparr>analysis_results :=
                           (analysis_results (sess st))(agency_analysis_key cfg \<mapsto> res)\<rparr>
                else sess st)"
    by (simp add: snapshot_compute_def ga_pair gt_pair process_titles_def Let_def
        st_def ts_def res_def)
  have v2: "title_view up cfg s2 = title_view up cfg s"
  proof -
    have "title_content_cache s2 = title_content_cache s1"
      unfolding s2_def by (rule gt(3))
    also have "\<dots> = title_content_cache s"
      unfolding s1_def by (rule ga(3))
    finally show ?thesis by (rule title_view_cong)
  qed
  note f = fold_process_title_by_view [OF imm, of cfg libs "target_date cfg" ts "start_run s2"]
  have wc: "word_counts st = fst (fold (view_step libs (target_date cfg) (title_view up cfg s)) ts ([], []))"
    using f v2 by (simp add: st_def start_run_def prod_eq_iff)
  have vst: "title_view up cfg (sess st) = title_view up cfg s"
    using f v2 by (simp add: st_def start_run_def)
  have sl: "same_lists s2 (sess st)"
    using f by (simp add: st_def start_run_def)
  have ac: "agencies_cache (sess st) = agencies_cache s1"
    using sl gt(4) by (simp add: same_lists_def s2_def)
  have tc: "titles_cache (sess st) = titles_cache s2"
    using sl by (simp add: same_lists_def)
  have mk: "analysis_marks (sess st) = analysis_marks s"
    using sl gt(5) ga(5) by (simp add: same_lists_def s2_def s1_def)
  have av_st: "agencies_view up da cfg (sess st) = agencies_view up da cfg s"
  proof -
    have "agencies_view up da cfg (sess st) = agencies_view up da cfg s1"
      by (rule agencies_view_cong) (rule ac)
    also have "\<dots> = agencies_view up da cfg s"
      unfolding s1_def by (rule ga(2))
    finally show ?thesis .
  qed
  have tv_st: "titles_view up dt cfg (sess st) = titles_view up dt cfg s"
  proof -
    have "titles_view up dt cfg (sess st) = titles_view up dt cfg s2"
      by (rule titles_view_cong) (rule tc)
    also have "\<dots> = titles_view up dt cfg s1"
      unfolding s2_def by (rule gt(2))
    also have "\<dots> = titles_view up dt cfg s"
      using t0 by (simp add: tv_def)
    finally show ?thesis .
  qed
  show "fst (snapshot_compute up da dt cfg libs s)
           = snapshot_by_views (agencies_view up da cfg s) (titles_view up dt cfg s)
               (title_view up cfg s) libs (target_date cfg) (max_titles cfg)"
    by (simp add: sc res_def snapshot_by_views_def Let_def wc ts_def av_def tv_def)
  show "agencies_view up da cfg (snd (snapshot_compute up da dt cfg libs s))
           = agencies_view up da cfg s"
  proof -
    have "agencies_view up da cfg (snd (snapshot_compute up da dt cfg libs s))
            = agencies_view up da cfg (sess st)"
      by (rule agencies_view_cong) (simp add: sc)
    with av_st show ?thesis by simp
  qed
  show "titles_view up dt cfg (snd (snapshot_compute up da dt cfg libs s))
           = titles_view up dt cfg s"
  proof -
    have "titles_view up dt cfg (snd (snapshot_compute up da dt cfg libs s))
            = titles_view up dt cfg (sess st)"
      by (rule titles_view_cong) (simp add: sc)
    with tv_st show ?thesis by simp
  qed
  show "title_view up cfg (snd (snapshot_compute up da dt cfg libs s))
           = title_view up cfg s"
  proof -
    have "title_view up cfg (snd (snapshot_compute up da dt cfg libs s))
            = title_view up cfg (sess st)"
      by (rule title_view_cong) (simp add: sc)
    with vst show ?thesis by simp
  qed
  show "analysis_marks (snd (snapshot_compute up da dt cfg libs s)) = analysis_marks s"
    using mk by (simp add: sc)
qed

lemma session_agrees_views:
  assumes "cache_results cfg"
  shows "session_agrees up da dt cfg s \<longleftrightarrow>
           title_view up cfg s = uncached_content up cfg
           \<and> agencies_view up da cfg s = upstream_list up AgenciesJson da
           \<and> titles_view up dt cfg s = upstream_list up TitlesJson dt"
proof -
  have 1: "(\<forall>n d c. title_content_cache s (n, d) = Some c \<longrightarrow> uncached_content up cfg n d = Some c)
             \<longleftrightarrow> title_view up cfg s = uncached_content up cfg"
  proof
    assume a: "\<forall>n d c. title_content_cache s (n, d) = Some c \<longrightarrow> uncached_content up cfg n d = Some c"
    show "title_view up cfg s = uncached_content up cfg"
    proof (intro ext)
      fix n d
      show "title_view up cfg s n d = uncached_content up cfg n d"
      proof (cases "title_content_cache s (n, d)")
        case None
        then show ?thesis by (simp add: title_view_def)
      next
        case (Some c)
        with a have "uncached_content up cfg n d = Some c" by blast
        with Some show ?thesis by (simp add: title_view_def)
      qed
    qed
  next
    assume v: "title_view up cfg s = uncached_content up cfg"
    show "\<forall>n d c. title_content_cache s (n, d) = Some c \<longrightarrow> uncached_content up cfg n d = Some c"
    proof (intro allI impI)
      fix n d c assume c: "title_content_cache s (n, d) = Some c"
      then have "title_view up cfg s n d = Some c"
        using assms by (simp add: title_view_def)
      with v show "uncached_content up cfg n d = Some c" by simp
    qed
  qed
  have 2: "(\<forall>a. agencies_cache s = Some a \<longrightarrow> upstream_list up AgenciesJson da = a)
             \<longleftrightarrow> agencies_view up da cfg s = upstream_list up AgenciesJson da"
    using assms by (cases "agencies_cache s") (auto simp: agencies_view_def)
  have 3: "(\<forall>t. titles_cache s = Some t \<longrightarrow> upstream_list up TitlesJson dt = t)
             \<longleftrightarrow> titles_view up dt cfg s = upstream_list up TitlesJson dt"
    using assms by (cases "titles_cache s") (auto simp: titles_view_def)
  show ?thesis
    unfolding session_agrees_def 1 2 3 by (rule refl)
qed

lemma views_uncached:
  assumes "\<not> cache_results cfg"
  shows "title_view up cfg s = uncached_content up cfg"
    and "agencies_view up da cfg s = upstream_list up AgenciesJson da"
    and "titles_view up dt cfg s = upstream_list up TitlesJson dt"
  using assms by (auto simp: title_view_def agencies_view_def titles_view_def intro!: ext)

lemma uncached_content_cache_results:
  "uncached_content up (cfg\<lparr>cache_results := b\<rparr>) = uncached_content up cfg"
  by (intro ext) (simp add: uncached_content_def)

section \<open>The loops over titles, position by position\<close>


lemma process_title_word_counts:
  "word_counts (process_title up cfg libs target fr ti st)
     = (if \<not> reserved ti \<and> truthy (content_at up cfg target fr ti (sess st))
        then dict_set (number ti)
               (count_words_in_xml libs (content_at up cfg target fr ti (sess st)))
               (word_counts st)
        else word_counts st)"
  by (simp add: process_title_def content_at_def split: prod.splits)


lemma fold_composition_fields:
  "word_counts (fold (process_title_composition up cfg libs target) ts st)
     = word_counts (fold (process_title up cfg libs target (\<not> cache_results cfg)) ts st)"
  "sess (fold (process_title_composition up cfg libs target) ts st)
     = sess (fold (process_title up cfg libs target (\<not> cache_results cfg)) ts st)"
  "fetched (fold (process_title_composition up cfg libs target) ts st)
     = fetched (fold (process_title up cfg libs target (\<not> cache_results cfg)) ts st)"
proof -
  obtain x where "fold (process_title_composition up cfg libs target) ts st
     = (fold (process_title up cfg libs target (\<not> cache_results cfg)) ts st)\<lparr>fetch_errors := x\<rparr>"
    using fold_process_title_composition_eq by blast
  then show
    "word_counts (fold (process_title_composition up cfg libs target) ts st)
       = word_counts (fold (process_title up cfg libs target (\<not> cache_results cfg)) ts st)"
    "sess (fold (process_title_composition up cfg libs target) ts st)
       = sess (fold (process_title up cfg libs target (\<not> cache_results cfg)) ts st)"
    "fetched (fold (process_title_composition up cfg libs target) ts st)
       = fetched (fold (process_title up cfg libs target (\<not> cache_results cfg)) ts st)"
    by simp_all
qed

lemma keys_image_dict_set: "fst ` set (dict_set k v d) = insert k (fst ` set d)"
  using keys_dict_set [of k v d] by simp

lemma fold_process_title_keys:
  "n \<in> fst ` set (word_counts (fold (process_title up cfg libs target fr) ts st))
     \<longleftrightarrow> n \<in> fst ` set (word_counts st)
         \<or> (\<exists>i < length ts. number (ts ! i) = n \<and> \<not> reserved (ts ! i)
              \<and> truthy (content_at up cfg target fr (ts ! i)
                          (sess (fold (process_title up cfg libs target fr) (take i ts) st))))"
proof (induction ts arbitrary: st)
  case Nil
  then show ?case by simp
next
  case (Cons t ts)
  let ?st' = "process_title up cfg libs target fr t st"
  have head: "n \<in> fst ` set (word_counts ?st')
     \<longleftrightarrow> n \<in> fst ` set (word_counts st)
         \<or> (number t = n \<and> \<not> reserved t \<and> truthy (content_at up cfg target fr t (sess st)))"
    by (auto simp: process_title_word_counts keys_image_dict_set)
  show ?case
    by (simp add: Cons.IH [of ?st'] head Ex_less_Suc2)
qed


lemma fold_process_title_fetched:
  "map (\<lambda>e. (fst e, fst (snd e))) (fetched (fold (process_title up cfg libs target fr) ts st))
     = map (\<lambda>e. (fst e, fst (snd e))) (fetched st)
       @ map (\<lambda>t. (number t, use_date target (latest_amended_on t)))
           (filter (\<lambda>t. \<not> reserved t) ts)"
proof (induction ts arbitrary: st)
  case Nil
  then show ?case by simp
next
  case (Cons t ts)
  have "map (\<lambda>e. (fst e, fst (snd e))) (fetched (process_title up cfg libs target fr t st))
     = map (\<lambda>e. (fst e, fst (snd e))) (fetched st)
       @ (if reserved t then [] else [(number t, use_date target (latest_amended_on t))])"
    by (simp add: process_title_def split: prod.splits)
  then show ?case by (simp add: Cons.IH)
qed


lemma composition_fetched_exact:
  "map (\<lambda>e. (fst e, fst (snd e)))
       (comp_fetched (fst (composition up cfg libs agencies titles_info selected s)))
     = (if dict_get (create_agency_title_mapping agencies) selected [] = [] then []
        else map (\<lambda>t. (number t, use_date (target_date cfg) (latest_amended_on t)))
               (filter (\<lambda>t. \<not> reserved t)
                  (relevant_titles titles_info
                     (dict_get (create_agency_title_mapping agencies) selected []))))"
  by (simp add: composition_def Let_def fold_composition_fields fold_process_title_fetched
        start_run_def)

lemma composition_keys_subset:
  "fst ` set (comp_title_word_counts (fst (composition up cfg libs agencies titles_info selected s)))
     \<subseteq> number ` {t \<in> set (relevant_titles titles_info
                              (dict_get (create_agency_title_mapping agencies) selected [])).
                   \<not> reserved t}"
proof (cases "dict_get (create_agency_title_mapping agencies) selected [] = []")
  case True
  then show ?thesis by (simp add: composition_def)
next
  case False
  let ?rel = "relevant_titles titles_info
                (dict_get (create_agency_title_mapping agencies) selected [])"
  have "comp_title_word_counts (fst (composition up cfg libs agencies titles_info selected s))
      = word_counts (fold (process_title up cfg libs (target_date cfg) (\<not> cache_results cfg))
          ?rel (start_run s))"
    using False by (simp add: composition_def Let_def fold_composition_fields)
  then have eq: "comp_title_word_counts
                   (fst (composition up cfg libs agencies titles_info selected s))
      = word_counts (fold (process_title up cfg libs (target_date cfg) (\<not> cache_results cfg))
          ?rel (start_run s))" .
  show ?thesis
  proof
    fix n
    assume "n \<in> fst ` set (comp_title_word_counts
                             (fst (composition up cfg libs agencies titles_info selected s)))"
    then have "n \<in> fst ` set (word_counts (fold (process_title up cfg libs (target_date cfg)
                                  (\<not> cache_results cfg)) ?rel (start_run s)))"
      by (simp only: eq)
    then obtain i where "i < length ?rel" "number (?rel ! i) = n" "\<not> reserved (?rel ! i)"
      unfolding fold_process_title_keys by (auto simp: start_run_def)
    then have "?rel ! i \<in> {t \<in> set ?rel. \<not> reserved t}" "n = number (?rel ! i)"
      by simp_all
    then show "n \<in> number ` {t \<in> set ?rel. \<not> reserved t}" by (rule rev_image_eqI)
  qed
qed

lemma relevant_titles_strs:
  assumes strs: "\<forall>v \<in> set tfa. \<exists>x. v = PStr x"
    and ex: "\<exists>t \<in> set titles_info. owned tfa (number t)"
  shows "relevant_titles titles_info tfa = filter (\<lambda>t. owned tfa (number t)) titles_info"
proof -
  have o: "owned tfa n \<longleftrightarrow> PStr (str_int n) \<in> set tfa" for n
  proof
    assume "owned tfa n"
    then obtain v where v: "v \<in> set tfa" "str_int n = py_str v" unfolding owned_def by blast
    from strs v(1) obtain x where "v = PStr x" by blast
    with v show "PStr (str_int n) \<in> set tfa" by simp
  next
    assume "PStr (str_int n) \<in> set tfa"
    moreover have "str_int n = py_str (PStr (str_int n))" by simp
    ultimately show "owned tfa n" unfolding owned_def by blast
  qed
  have eq: "filter (\<lambda>t. PStr (str_int (number t)) \<in> set tfa) titles_info
          = filter (\<lambda>t. owned tfa (number t)) titles_info"
    by (simp add: o)
  from ex have "filter (\<lambda>t. owned tfa (number t)) titles_info \<noteq> []"
    by (auto simp: filter_empty_conv)
  with eq show ?thesis by (simp add: relevant_titles_cases)
qed

section \<open>Attribution in doubles and in exact arithmetic\<close>

lemma close_to_fl: "0 \<le> y \<Longrightarrow> close_to 1 (fl y) y"
  using fl_bounds [of y] by (simp add: close_to_def)

lemma close_to_zero: "close_to j 0 0"
  by (simp add: close_to_def)

lemma close_to_refl: "close_to 0 x x"
  by (simp add: close_to_def)

lemma close_to_nonneg: "0 \<le> y \<Longrightarrow> close_to j x y \<Longrightarrow> 0 \<le> x"
proof -
  assume y: "0 \<le> y" and w: "close_to j x y"
  have "0 \<le> (1 - unit_roundoff) ^ j * y"
    using y unit_roundoff_bounds by (intro mult_nonneg_nonneg zero_le_power) simp_all
  with w show ?thesis unfolding close_to_def by linarith
qed

lemma close_to_mono:
  assumes y: "0 \<le> y" and w: "close_to j x y" and jk: "j \<le> k"
  shows "close_to k x y"
proof -
  have lo: "(1 - unit_roundoff) ^ k \<le> (1 - unit_roundoff) ^ j"
    using unit_roundoff_bounds jk by (intro power_decreasing) simp_all
  have hi: "(1 + unit_roundoff) ^ j \<le> (1 + unit_roundoff) ^ k"
    using unit_roundoff_bounds jk by (intro power_increasing) simp_all
  have "(1 - unit_roundoff) ^ k * y \<le> (1 - unit_roundoff) ^ j * y"
    using lo y by (rule mult_right_mono)
  moreover have "(1 + unit_roundoff) ^ j * y \<le> (1 + unit_roundoff) ^ k * y"
    using hi y by (rule mult_right_mono)
  ultimately show ?thesis using w unfolding close_to_def by linarith
qed

lemma close_to_add: "close_to j x y \<Longrightarrow> close_to j x' y' \<Longrightarrow> close_to j (x + x') (y + y')"
  unfolding close_to_def by (simp add: distrib_left add_mono)

lemma close_to_fl_step:
  assumes y: "0 \<le> y" and w: "close_to j x y"
  shows "close_to (Suc j) (fl x) y"
proof -
  have x: "0 \<le> x" using y w by (rule close_to_nonneg)
  have u: "0 \<le> 1 - unit_roundoff" "0 \<le> 1 + unit_roundoff"
    using unit_roundoff_bounds by simp_all
  from w have lo: "(1 - unit_roundoff) ^ j * y \<le> x" and hi: "x \<le> (1 + unit_roundoff) ^ j * y"
    unfolding close_to_def by simp_all
  have "(1 - unit_roundoff) * ((1 - unit_roundoff) ^ j * y) \<le> (1 - unit_roundoff) * x"
    using lo u(1) by (rule mult_left_mono)
  also have "\<dots> \<le> fl x" using fl_bounds(1) [OF x] .
  finally have 1: "(1 - unit_roundoff) ^ Suc j * y \<le> fl x" by (simp add: mult.assoc)
  have "fl x \<le> (1 + unit_roundoff) * x" using fl_bounds(2) [OF x] .
  also have "\<dots> \<le> (1 + unit_roundoff) * ((1 + unit_roundoff) ^ j * y)"
    using hi u(2) by (rule mult_left_mono)
  finally have 2: "fl x \<le> (1 + unit_roundoff) ^ Suc j * y" by (simp add: mult.assoc)
  from 1 2 show ?thesis unfolding close_to_def by simp
qed

lemma close_to_fadd:
  assumes "0 \<le> y" "0 \<le> s" "close_to j x y" "close_to 1 r s" "1 \<le> j"
  shows "close_to (Suc j) (fadd x r) (y + s)"
proof -
  have "close_to j r s" using assms(2,4,5) by (rule close_to_mono)
  with assms(3) have "close_to j (x + r) (y + s)" by (rule close_to_add)
  moreover have "0 \<le> y + s" using assms(1,2) by simp
  ultimately show ?thesis unfolding fadd_def by (intro close_to_fl_step)
qed

lemma keys_dict_set_cong:
  "map fst d = map fst d' \<Longrightarrow> map fst (dict_set k v d) = map fst (dict_set k v' d')"
proof (induction d arbitrary: d')
  case Nil
  then show ?case by simp
next
  case (Cons p d)
  then obtain p' d'' where d': "d' = p' # d''" by (cases d') auto
  with Cons.prems have "fst p = fst p'" "map fst d = map fst d''" by simp_all
  with Cons.IH [of d''] show ?case unfolding d' by (cases p; cases p') simp
qed

lemma get_add_count: "dict_get (add_count a x d) b 0 = (if b = a then fadd (dict_get d a 0) x else dict_get d b 0)"
  by (simp add: add_count_def dict_get_dict_set)

lemma get_fold_add_count:
  "distinct owners \<Longrightarrow>
   dict_get (fold (\<lambda>a acc'. add_count a x acc') owners acc) b 0
     = (if b \<in> set owners then fadd (dict_get acc b 0) x else dict_get acc b 0)"
proof (induction owners arbitrary: acc)
  case Nil
  then show ?case by simp
next
  case (Cons a owners)
  then show ?case by (auto simp: get_add_count)
qed

lemma get_fold_add_count_exact_distinct:
  "distinct owners \<Longrightarrow>
   dict_get (fold (\<lambda>a acc'. add_count_exact a x acc') owners acc) b 0
     = (if b \<in> set owners then dict_get acc b 0 + x else dict_get acc b 0)"
  by (simp add: get_fold_add_count_exact count_list_distinct)

lemma keys_fold_add_count:
  "map fst acc = map fst acc' \<Longrightarrow>
   map fst (fold (\<lambda>a acc'. add_count a x acc') owners acc)
     = map fst (fold (\<lambda>a acc'. add_count_exact a y acc') owners acc')"
proof (induction owners arbitrary: acc acc')
  case Nil
  then show ?case by simp
next
  case (Cons a owners)
  have "map fst (add_count a x acc) = map fst (add_count_exact a y acc')"
    unfolding add_count_def add_count_exact_def using Cons.prems by (rule keys_dict_set_cong)
  then show ?case by (simp add: Cons.IH)
qed

lemma get_attribute_title:
  "distinct (dict_get idx (PInt t) []) \<Longrightarrow>
   dict_get (attribute_title idx (t, wc) acc) a 0
     = (if a \<in> set (dict_get idx (PInt t) [])
        then fadd (dict_get acc a 0)
               (fdiv (of_int wc) (of_nat (length (dict_get idx (PInt t) []))))
        else dict_get acc a 0)"
  by (auto simp: attribute_title_def Let_def get_fold_add_count)

lemma get_attribute_title_exact_distinct:
  "distinct (dict_get idx (PInt t) []) \<Longrightarrow>
   dict_get (attribute_title_exact idx (t, wc) acc) a 0
     = (if a \<in> set (dict_get idx (PInt t) [])
        then dict_get acc a 0 + of_int wc / of_nat (length (dict_get idx (PInt t) []))
        else dict_get acc a 0)"
  by (auto simp: attribute_title_exact_def Let_def get_fold_add_count_exact_distinct)

lemma keys_attribute_title:
  "map fst acc = map fst acc' \<Longrightarrow>
   map fst (attribute_title idx tw acc) = map fst (attribute_title_exact idx tw acc')"
  by (simp add: attribute_title_def attribute_title_exact_def Let_def keys_fold_add_count)

lemma attribute_title_close_to:
  assumes d: "distinct (dict_get idx (PInt t) [])" and wc: "0 \<le> wc" and j: "1 \<le> j"
    and inv: "\<And>a. 0 \<le> dict_get acc' a 0 \<and> close_to j (dict_get acc a 0) (dict_get acc' a 0)"
  shows "0 \<le> dict_get (attribute_title_exact idx (t, wc) acc') a 0
     \<and> close_to (Suc j) (dict_get (attribute_title idx (t, wc) acc) a 0)
          (dict_get (attribute_title_exact idx (t, wc) acc') a 0)"
proof -
  let ?k = "length (dict_get idx (PInt t) [])"
  let ?s = "of_int wc / of_nat ?k :: rat"
  have s: "0 \<le> ?s" using wc by simp
  have r: "close_to 1 (fdiv (of_int wc) (of_nat ?k)) ?s"
    unfolding fdiv_def using s by (rule close_to_fl)
  from inv [of a] have y: "0 \<le> dict_get acc' a 0"
    and w: "close_to j (dict_get acc a 0) (dict_get acc' a 0)" by simp_all
  show ?thesis
  proof (cases "a \<in> set (dict_get idx (PInt t) [])")
    case True
    have "close_to (Suc j) (fadd (dict_get acc a 0) (fdiv (of_int wc) (of_nat ?k)))
            (dict_get acc' a 0 + ?s)"
      using y s w r j by (rule close_to_fadd)
    then show ?thesis
      using True y s by (simp add: get_attribute_title [OF d] get_attribute_title_exact_distinct [OF d])
  next
    case False
    have "close_to (Suc j) (dict_get acc a 0) (dict_get acc' a 0)"
      using y w by (rule close_to_mono) simp
    then show ?thesis
      using False y by (simp add: get_attribute_title [OF d] get_attribute_title_exact_distinct [OF d])
  qed
qed

lemma fold_attribute_close_to:
  assumes "\<forall>tw \<in> set tws. distinct (dict_get idx (PInt (fst tw)) []) \<and> 0 \<le> snd tw"
    and "1 \<le> j"
    and "\<And>a. 0 \<le> dict_get acc' a 0 \<and> close_to j (dict_get acc a 0) (dict_get acc' a 0)"
  shows "0 \<le> dict_get (fold (attribute_title_exact idx) tws acc') a 0
     \<and> close_to (j + length tws) (dict_get (fold (attribute_title idx) tws acc) a 0)
          (dict_get (fold (attribute_title_exact idx) tws acc') a 0)"
  using assms
proof (induction tws arbitrary: acc acc' j)
  case Nil
  then show ?case by simp
next
  case (Cons tw tws)
  obtain t wc where tw: "tw = (t, wc)" by (cases tw)
  from Cons.prems(1) have d: "distinct (dict_get idx (PInt t) [])" and wc: "0 \<le> wc"
    and rest: "\<forall>tw \<in> set tws. distinct (dict_get idx (PInt (fst tw)) []) \<and> 0 \<le> snd tw"
    by (simp_all add: tw)
  have step: "\<And>a. 0 \<le> dict_get (attribute_title_exact idx (t, wc) acc') a 0
     \<and> close_to (Suc j) (dict_get (attribute_title idx (t, wc) acc) a 0)
          (dict_get (attribute_title_exact idx (t, wc) acc') a 0)"
    using d wc Cons.prems(2) Cons.prems(3) by (rule attribute_title_close_to)
  have "1 \<le> Suc j" by simp
  from Cons.IH [OF rest this step] show ?case by (simp add: tw)
qed

lemma keys_fold_attribute:
  "map fst acc = map fst acc' \<Longrightarrow>
   map fst (fold (attribute_title idx) tws acc) = map fst (fold (attribute_title_exact idx) tws acc')"
proof (induction tws arbitrary: acc acc')
  case Nil
  then show ?case by simp
next
  case (Cons tw tws)
  from Cons.prems have "map fst (attribute_title idx tw acc) = map fst (attribute_title_exact idx tw acc')"
    by (rule keys_attribute_title)
  then show ?case by (simp add: Cons.IH)
qed

lemma distinct_fold_add_count_exact:
  "distinct (map fst acc) \<Longrightarrow> distinct (map fst (fold (\<lambda>a acc'. add_count_exact a x acc') owners acc))"
  by (induction owners arbitrary: acc) (simp_all add: add_count_exact_def distinct_dict_set)

lemma distinct_fold_attribute_exact:
  "distinct (map fst acc) \<Longrightarrow> distinct (map fst (fold (attribute_title_exact idx) tws acc))"
  by (induction tws arbitrary: acc)
    (simp_all add: attribute_title_exact_def Let_def distinct_fold_add_count_exact)

lemma sum_by_keys:
  fixes d :: "('k \<times> rat) list"
  shows "distinct (map fst d) \<Longrightarrow> sum_list (map snd d) = sum_list (map (\<lambda>k. dict_get d k 0) (map fst d))"
proof (induction d)
  case Nil
  then show ?case by simp
next
  case (Cons p d)
  obtain k v where p: "p = (k, v)" by (cases p)
  from Cons.prems have nk: "k \<notin> fst ` set d" and dd: "distinct (map fst d)" by (simp_all add: p)
  have m: "map (\<lambda>k'. dict_get ((k, v) # d) k' 0) (map fst d) = map (\<lambda>k'. dict_get d k' 0) (map fst d)"
    using nk by (auto simp: dict_get_def)
  have "sum_list (map snd (p # d)) = v + sum_list (map snd d)" by (simp add: p)
  also have "\<dots> = v + sum_list (map (\<lambda>k. dict_get d k 0) (map fst d))"
    using Cons.IH [OF dd] by simp
  also have "\<dots> = dict_get ((k, v) # d) k 0
                  + sum_list (map (\<lambda>k'. dict_get ((k, v) # d) k' 0) (map fst d))"
    unfolding m by (simp add: dict_get_def)
  also have "\<dots> = sum_list (map (\<lambda>k'. dict_get (p # d) k' 0) (map fst (p # d)))"
    by (simp add: p)
  finally show ?case .
qed

lemma close_to_sum_list:
  "\<forall>k \<in> set ks. close_to j (f k) (g k) \<Longrightarrow> close_to j (sum_list (map f ks)) (sum_list (map g ks))"
  by (induction ks) (simp_all add: close_to_zero close_to_add)

lemma attribute_close_to:
  assumes "\<forall>tw \<in> set twc. distinct (dict_get idx (PInt (fst tw)) []) \<and> 0 \<le> snd tw"
  shows "close_to (Suc (length twc)) (dict_get (attribute twc idx) a 0)
           (dict_get (attribute_exact twc idx) a 0)"
proof -
  have e: "\<And>a. 0 \<le> dict_get ([] :: (string \<times> rat) list) a 0
            \<and> close_to 1 (dict_get ([] :: (string \<times> rat) list) a 0) (dict_get [] a 0)"
    by (simp add: dict_get_def close_to_zero)
  have "(1 :: nat) \<le> 1" by simp
  from fold_attribute_close_to [OF assms this e] show ?thesis
    by (simp add: attribute_def attribute_exact_def)
qed

lemma attribute_sum_close_to:
  assumes "\<forall>tw \<in> set twc. distinct (dict_get idx (PInt (fst tw)) []) \<and> 0 \<le> snd tw"
  shows "close_to (Suc (length twc)) (sum_list (map snd (attribute twc idx)))
           (of_int (sum_list (map snd
              (filter (\<lambda>tw. dict_get idx (PInt (fst tw)) [] \<noteq> []) twc))))"
proof -
  have keys: "map fst (attribute twc idx) = map fst (attribute_exact twc idx)"
    unfolding attribute_def attribute_exact_def by (rule keys_fold_attribute) simp
  have de: "distinct (map fst (attribute_exact twc idx))"
    unfolding attribute_exact_def by (rule distinct_fold_attribute_exact) simp
  then have df: "distinct (map fst (attribute twc idx))" by (simp only: keys)
  have "close_to (Suc (length twc))
          (sum_list (map (\<lambda>k. dict_get (attribute twc idx) k 0) (map fst (attribute_exact twc idx))))
          (sum_list (map (\<lambda>k. dict_get (attribute_exact twc idx) k 0)
                       (map fst (attribute_exact twc idx))))"
    by (rule close_to_sum_list) (intro ballI attribute_close_to [OF assms])
  then have "close_to (Suc (length twc)) (sum_list (map snd (attribute twc idx)))
          (sum_list (map snd (attribute_exact twc idx)))"
    using sum_by_keys [OF df] sum_by_keys [OF de] by (simp only: keys)
  moreover have "sum_list (map snd (attribute_exact twc idx))
      = of_int (sum_list (map snd (filter (\<lambda>tw. dict_get idx (PInt (fst tw)) [] \<noteq> []) twc)))"
    unfolding attribute_exact_def by (simp add: sum_fold_attribute_exact)
  ultimately show ?thesis by (simp only:)
qed

section \<open>Rounding and shares\<close>

lemma sum_list_abs_diff:
  fixes f g :: "'a \<Rightarrow> rat"
  assumes "\<forall>x \<in> set xs. \<bar>f x - g x\<bar> \<le> c"
  shows "\<bar>sum_list (map f xs) - sum_list (map g xs)\<bar> \<le> of_nat (length xs) * c"
  using assms
proof (induction xs)
  case Nil
  then show ?case by simp
next
  case (Cons a xs)
  then have 1: "\<bar>f a - g a\<bar> \<le> c" and 2: "\<bar>sum_list (map f xs) - sum_list (map g xs)\<bar> \<le> of_nat (length xs) * c"
    by simp_all
  have "\<bar>sum_list (map f (a # xs)) - sum_list (map g (a # xs))\<bar>
          = \<bar>(f a - g a) + (sum_list (map f xs) - sum_list (map g xs))\<bar>"
    by (simp add: algebra_simps)
  also have "\<dots> \<le> \<bar>f a - g a\<bar> + \<bar>sum_list (map f xs) - sum_list (map g xs)\<bar>"
    by (rule abs_triangle_ineq)
  also have "\<dots> \<le> c + of_nat (length xs) * c" using 1 2 by linarith
  finally show ?case by (simp add: algebra_simps)
qed

lemma sum_shares:
  fixes twc :: "(int \<times> int) list"
  assumes "sum_list (map snd twc) \<noteq> 0"
  shows "sum_list (map (\<lambda>tw. share (sum_list (map snd twc)) (snd tw)) twc) = 100"
proof -
  define T where "T = sum_list (map snd twc)"
  have "sum_list (map (\<lambda>tw. share T (snd tw)) xs)
          = of_int (sum_list (map snd xs)) / of_int T * 100" for xs :: "(int \<times> int) list"
    by (induction xs) (simp_all add: share_def add_divide_distrib distrib_right)
  from this [of twc] show ?thesis
    using assms by (simp add: T_def)
qed

lemma composition_data_percentage:
  "map row_percentage (composition_data titles_info twc)
     = map (\<lambda>tw. py_round2 (if sum_list (map snd twc) > 0
                             then fmul (fdiv (of_int (snd tw)) (of_int (sum_list (map snd twc)))) 100
                             else 0)) twc"
  by (simp add: composition_data_def Let_def split_def)

lemma composition_data_word_count:
  "map row_word_count (composition_data titles_info twc) = map snd twc"
  by (simp add: composition_data_def Let_def split_def)

lemma py_round2_0: "py_round2 0 = 0"
  by (simp add: py_round2_def rne_def fl_def)

lemma unit_roundoff_small: "unit_roundoff \<le> 1 / 1000"
  by (simp add: unit_roundoff_def)

lemma py_round2_error:
  "\<bar>py_round2 x - x\<bar> \<le> 1 / 200 + (\<bar>x\<bar> + 1 / 200) * unit_roundoff"
proof -
  define d :: rat where "d = of_int (rne (x * 100)) / 100"
  have "\<bar>of_int (rne (x * 100)) - x * 100\<bar> \<le> 1 / 2" by (rule rne_error)
  then have "\<bar>(of_int (rne (x * 100)) - x * 100) / 100\<bar> \<le> (1 / 2) / 100"
    by (simp only: abs_divide) simp
  then have dx: "\<bar>d - x\<bar> \<le> 1 / 200"
    by (simp add: d_def diff_divide_distrib)
  then have "\<bar>d\<bar> \<le> \<bar>x\<bar> + 1 / 200" by linarith
  then have "\<bar>d\<bar> * unit_roundoff \<le> (\<bar>x\<bar> + 1 / 200) * unit_roundoff"
    using unit_roundoff_bounds(1) by (intro mult_right_mono) simp_all
  moreover have "\<bar>fl d - d\<bar> \<le> \<bar>d\<bar> * unit_roundoff"
    using fl_error [of d] by (simp add: unit_roundoff_def)
  ultimately have "\<bar>fl d - d\<bar> \<le> (\<bar>x\<bar> + 1 / 200) * unit_roundoff" by linarith
  with dx have "\<bar>fl d - x\<bar> \<le> 1 / 200 + (\<bar>x\<bar> + 1 / 200) * unit_roundoff" by linarith
  then show ?thesis by (simp add: py_round2_def d_def)
qed

lemma close_to_scale: "0 \<le> c \<Longrightarrow> close_to j x y \<Longrightarrow> close_to j (x * c) (y * c)"
proof -
  assume c: "0 \<le> c" and w: "close_to j x y"
  from w have "(1 - unit_roundoff) ^ j * y * c \<le> x * c" "x * c \<le> (1 + unit_roundoff) ^ j * y * c"
    unfolding close_to_def using c by (simp_all add: mult_right_mono)
  then show ?thesis unfolding close_to_def by (simp add: mult.assoc)
qed

lemma close_to_2_error:
  assumes y: "0 \<le> y" and w: "close_to 2 x y"
  shows "\<bar>x - y\<bar> \<le> 3 * unit_roundoff * y"
proof -
  let ?u = unit_roundoff
  have u: "0 < ?u" "?u \<le> 1" using unit_roundoff_bounds by simp_all
  have uu: "?u * ?u \<le> ?u" using u by (simp add: mult_left_le)
  have hi: "(1 + ?u) ^ 2 \<le> 1 + 3 * ?u" using uu by (simp add: power2_eq_square algebra_simps)
  have lo: "1 - 3 * ?u \<le> (1 - ?u) ^ 2"
    using u by (simp add: power2_eq_square algebra_simps)
  from w have "(1 - ?u) ^ 2 * y \<le> x" "x \<le> (1 + ?u) ^ 2 * y"
    unfolding close_to_def by simp_all
  moreover have "(1 - 3 * ?u) * y \<le> (1 - ?u) ^ 2 * y" using lo y by (rule mult_right_mono)
  moreover have "(1 + ?u) ^ 2 * y \<le> (1 + 3 * ?u) * y" using hi y by (rule mult_right_mono)
  ultimately have "(1 - 3 * ?u) * y \<le> x" "x \<le> (1 + 3 * ?u) * y" by linarith+
  then have "y - 3 * ?u * y \<le> x" "x \<le> y + 3 * ?u * y" by (simp_all add: algebra_simps)
  then show ?thesis by (simp add: abs_le_iff)
qed

lemma percentage_error:
  assumes wc: "0 \<le> wc" "wc \<le> T" and T: "0 < T"
  shows "\<bar>py_round2 (fmul (fdiv (of_int wc) (of_int T)) 100) - share T wc\<bar>
           \<le> 1 / 200 + 401 * unit_roundoff"
proof -
  let ?u = unit_roundoff
  define q :: rat where "q = of_int wc / of_int T"
  define p where "p = fmul (fdiv (of_int wc) (of_int T)) 100"
  have q: "0 \<le> q" "q \<le> 1" using wc T by (simp_all add: q_def)
  have s: "share T wc = q * 100" by (simp add: share_def q_def)
  have s100: "0 \<le> q * 100" "q * 100 \<le> 100" using q by simp_all
  have "close_to 1 (fdiv (of_int wc) (of_int T)) q"
    unfolding fdiv_def q_def [symmetric] using q(1) by (rule close_to_fl)
  then have "close_to 1 (fdiv (of_int wc) (of_int T) * 100) (q * 100)"
    by (intro close_to_scale) simp_all
  with s100(1) have "close_to (Suc 1) (fl (fdiv (of_int wc) (of_int T) * 100)) (q * 100)"
    by (rule close_to_fl_step)
  then have c2: "close_to 2 p (q * 100)" by (simp add: p_def fmul_def numeral_2_eq_2)
  have "\<bar>p - q * 100\<bar> \<le> 3 * ?u * (q * 100)" using s100(1) c2 by (rule close_to_2_error)
  moreover have "3 * ?u * (q * 100) \<le> 3 * ?u * 100"
    using s100(2) unit_roundoff_bounds(1) by (intro mult_left_mono) simp_all
  ultimately have e1: "\<bar>p - q * 100\<bar> \<le> 300 * ?u" by simp
  have "300 * ?u \<le> 1 / 2" using unit_roundoff_small by simp
  with e1 s100 have pb: "\<bar>p\<bar> \<le> 100 + 1 / 2" by linarith
  have "(\<bar>p\<bar> + 1 / 200) * ?u \<le> 101 * ?u"
    using pb unit_roundoff_bounds(1) by (intro mult_right_mono) simp_all
  with py_round2_error [of p] have e2: "\<bar>py_round2 p - p\<bar> \<le> 1 / 200 + 101 * ?u" by linarith
  from e1 e2 have "\<bar>py_round2 p - q * 100\<bar> \<le> 1 / 200 + 401 * ?u" by linarith
  then show ?thesis by (simp add: s p_def)
qed

lemma member_le_sum_list:
  fixes xs :: "int list"
  assumes "\<forall>x \<in> set xs. 0 \<le> x" and "x \<in> set xs"
  shows "x \<le> sum_list xs"
  using assms by (induction xs) (auto simp: sum_list_nonneg intro: add_increasing add_increasing2)

lemma composition_data_error:
  assumes T: "0 < sum_list (map snd twc)" and nn: "\<forall>tw \<in> set twc. 0 \<le> snd tw"
  shows "\<forall>tw \<in> set twc.
           \<bar>py_round2 (fmul (fdiv (of_int (snd tw)) (of_int (sum_list (map snd twc)))) 100)
              - share (sum_list (map snd twc)) (snd tw)\<bar> \<le> 1 / 200 + 401 * unit_roundoff"
proof
  fix tw assume tw: "tw \<in> set twc"
  then have "0 \<le> snd tw" using nn by simp
  moreover have "snd tw \<le> sum_list (map snd twc)"
    by (rule member_le_sum_list) (use nn tw in auto)
  ultimately show "\<bar>py_round2 (fmul (fdiv (of_int (snd tw)) (of_int (sum_list (map snd twc)))) 100)
              - share (sum_list (map snd twc)) (snd tw)\<bar> \<le> 1 / 200 + 401 * unit_roundoff"
    using T by (intro percentage_error)
qed

lemma composition_data_sum:
  assumes T: "0 < sum_list (map snd twc)" and nn: "\<forall>tw \<in> set twc. 0 \<le> snd tw"
  shows "\<bar>sum_list (map row_percentage (composition_data titles_info twc)) - 100\<bar>
           \<le> of_nat (length twc) * (1 / 200 + 401 * unit_roundoff)"
proof -
  let ?T = "sum_list (map snd twc)"
  have p: "map row_percentage (composition_data titles_info twc)
          = map (\<lambda>tw. py_round2 (fmul (fdiv (of_int (snd tw)) (of_int ?T)) 100)) twc"
    using T by (simp add: composition_data_percentage)
  have e: "sum_list (map (\<lambda>tw. share ?T (snd tw)) twc) = 100"
    using T by (intro sum_shares) simp
  have "\<bar>sum_list (map (\<lambda>tw. py_round2 (fmul (fdiv (of_int (snd tw)) (of_int ?T)) 100)) twc)
          - sum_list (map (\<lambda>tw. share ?T (snd tw)) twc)\<bar>
        \<le> of_nat (length twc) * (1 / 200 + 401 * unit_roundoff)"
    by (rule sum_list_abs_diff) (rule composition_data_error [OF T nn])
  then show ?thesis unfolding p e .
qed

lemma process_title_nonneg:
  "\<forall>p \<in> set (word_counts st). 0 \<le> snd p \<Longrightarrow>
   \<forall>p \<in> set (word_counts (process_title up cfg libs target fr ti st)). 0 \<le> snd p"
  using set_dict_set [of "number ti"
      "count_words_in_xml libs (content_at up cfg target fr ti (sess st))" "word_counts st"]
    count_words_in_xml_nonneg [of libs "content_at up cfg target fr ti (sess st)"]
  by (auto simp: process_title_word_counts)

lemma fold_process_title_nonneg:
  "\<forall>p \<in> set (word_counts st). 0 \<le> snd p \<Longrightarrow>
   \<forall>p \<in> set (word_counts (fold (process_title up cfg libs target fr) ts st)). 0 \<le> snd p"
proof (induction ts arbitrary: st)
  case Nil
  then show ?case by simp
next
  case (Cons t ts)
  from Cons.prems have "\<forall>p \<in> set (word_counts (process_title up cfg libs target fr t st)). 0 \<le> snd p"
    by (rule process_title_nonneg)
  from Cons.IH [OF this] show ?case by simp
qed

lemma composition_nonneg:
  "\<forall>p \<in> set (comp_title_word_counts
                 (fst (composition up cfg libs agencies titles_info selected s))). 0 \<le> snd p"
proof (cases "dict_get (create_agency_title_mapping agencies) selected [] = []")
  case True
  then show ?thesis by (simp add: composition_def)
next
  case False
  have "\<forall>p \<in> set (word_counts (fold (process_title up cfg libs (target_date cfg)
                     (\<not> cache_results cfg))
                  (relevant_titles titles_info
                     (dict_get (create_agency_title_mapping agencies) selected []))
                  (start_run s))). 0 \<le> snd p"
    by (rule fold_process_title_nonneg) (simp add: start_run_def)
  then show ?thesis
    using False by (simp add: composition_def Let_def fold_composition_fields)
qed

section \<open>Attribution and the sum of the word counts\<close>

text \<open>
  Claim C1 says that a title with \<open>k \<ge> 1\<close> owners adds exactly \<open>wc / k\<close> to the total of each
  owner, and that the totals of a run add up to the word counts of the titles that have
  an owner. The totals are doubles: the quotient is rounded, and so is every sum. As
  amended: a title with no owner leaves the totals as they are; a title whose owners
  are \<open>k \<ge> 1\<close> different agencies replaces the total \<open>x\<close> of each owner by the double nearest
  to \<open>x + q\<close>, where \<open>q\<close> is the double nearest to \<open>wc / k\<close>, and leaves every other total as
  it is; each rounding has a relative error of at most \<open>unit_roundoff\<close>. For word counts
  that are not negative and an index that names no agency twice for a title, the total
  of every agency after \<open>n\<close> titles lies between \<open>(1 - unit_roundoff) ^ (n + 1)\<close> and
  \<open>(1 + unit_roundoff) ^ (n + 1)\<close> times its total in exact arithmetic, the totals are kept
  for the same agencies in the same order, and the sum of the totals lies between the
  same multiples of the sum of the word counts of the titles that have an owner. In
  exact arithmetic the totals add up to precisely that sum. The index the code builds
  from the agency list names no agency twice for a title.
\<close>

theorem attribute_conservation:
  "(dict_get idx (PInt t) [] = [] \<longrightarrow> attribute_title idx (t, wc) acc = acc)
   \<and> (dict_get idx (PInt t) [] \<noteq> [] \<and> distinct (dict_get idx (PInt t) []) \<longrightarrow>
        dict_get (attribute_title idx (t, wc) acc) a 0
          = (if a \<in> set (dict_get idx (PInt t) [])
             then fadd (dict_get acc a 0)
                    (fdiv (of_int wc) (of_nat (length (dict_get idx (PInt t) []))))
             else dict_get acc a 0))
   \<and> \<bar>fdiv x y - x / y\<bar> \<le> \<bar>x / y\<bar> * unit_roundoff
   \<and> \<bar>fadd x y - (x + y)\<bar> \<le> \<bar>x + y\<bar> * unit_roundoff
   \<and> ((\<forall>tw \<in> set title_word_counts.
           distinct (dict_get idx (PInt (fst tw)) []) \<and> 0 \<le> snd tw) \<longrightarrow>
        (1 - unit_roundoff) ^ (length title_word_counts + 1)
            * dict_get (attribute_exact title_word_counts idx) a 0
          \<le> dict_get (attribute title_word_counts idx) a 0
        \<and> dict_get (attribute title_word_counts idx) a 0
          \<le> (1 + unit_roundoff) ^ (length title_word_counts + 1)
               * dict_get (attribute_exact title_word_counts idx) a 0
        \<and> map fst (attribute title_word_counts idx)
            = map fst (attribute_exact title_word_counts idx)
        \<and> (1 - unit_roundoff) ^ (length title_word_counts + 1)
            * of_int (sum_list (map snd
                (filter (\<lambda>tw. dict_get idx (PInt (fst tw)) [] \<noteq> []) title_word_counts)))
          \<le> sum_list (map snd (attribute title_word_counts idx))
        \<and> sum_list (map snd (attribute title_word_counts idx))
          \<le> (1 + unit_roundoff) ^ (length title_word_counts + 1)
               * of_int (sum_list (map snd
                   (filter (\<lambda>tw. dict_get idx (PInt (fst tw)) [] \<noteq> []) title_word_counts))))
   \<and> dict_get (attribute_exact title_word_counts idx) a 0
        = sum_list (map (\<lambda>tw. of_nat (count_list (dict_get idx (PInt (fst tw)) []) a)
                                * of_int (snd tw)
                                / of_nat (length (dict_get idx (PInt (fst tw)) [])))
                      title_word_counts)
   \<and> sum_list (map snd (attribute_exact title_word_counts idx))
        = of_int (sum_list (map snd
            (filter (\<lambda>tw. dict_get idx (PInt (fst tw)) [] \<noteq> []) title_word_counts)))
   \<and> distinct (dict_get (reverse_mapping (create_agency_title_mapping agencies)) (PInt t) [])"
proof (intro conjI impI)
  assume "dict_get idx (PInt t) [] = []"
  then show "attribute_title idx (t, wc) acc = acc"
    by (simp add: attribute_title_def)
next
  assume "dict_get idx (PInt t) [] \<noteq> [] \<and> distinct (dict_get idx (PInt t) [])"
  then show "dict_get (attribute_title idx (t, wc) acc) a 0
          = (if a \<in> set (dict_get idx (PInt t) [])
             then fadd (dict_get acc a 0)
                    (fdiv (of_int wc) (of_nat (length (dict_get idx (PInt t) []))))
             else dict_get acc a 0)"
    by (simp add: get_attribute_title)
next
  show "\<bar>fdiv x y - x / y\<bar> \<le> \<bar>x / y\<bar> * unit_roundoff"
    using fl_error [of "x / y"] by (simp add: fdiv_def unit_roundoff_def)
  show "\<bar>fadd x y - (x + y)\<bar> \<le> \<bar>x + y\<bar> * unit_roundoff"
    using fl_error [of "x + y"] by (simp add: fadd_def unit_roundoff_def)
  show "dict_get (attribute_exact title_word_counts idx) a 0
        = sum_list (map (\<lambda>tw. of_nat (count_list (dict_get idx (PInt (fst tw)) []) a)
                                * of_int (snd tw)
                                / of_nat (length (dict_get idx (PInt (fst tw)) [])))
                      title_word_counts)"
  proof -
    have "dict_get ([] :: (string \<times> rat) list) a 0 = 0" by (simp add: dict_get_def)
    then show ?thesis
      unfolding attribute_exact_def by (simp add: get_fold_attribute_exact)
  qed
  show "sum_list (map snd (attribute_exact title_word_counts idx))
        = of_int (sum_list (map snd
            (filter (\<lambda>tw. dict_get idx (PInt (fst tw)) [] \<noteq> []) title_word_counts)))"
    unfolding attribute_exact_def by (simp add: sum_fold_attribute_exact)
  show "distinct (dict_get (reverse_mapping (create_agency_title_mapping agencies)) (PInt t) [])"
    by (rule reverse_mapping_distinct) (rule dict_ok_mapping)
next
  assume h: "\<forall>tw \<in> set title_word_counts.
           distinct (dict_get idx (PInt (fst tw)) []) \<and> 0 \<le> snd tw"
  from attribute_close_to [OF h, of a]
  show "(1 - unit_roundoff) ^ (length title_word_counts + 1)
            * dict_get (attribute_exact title_word_counts idx) a 0
          \<le> dict_get (attribute title_word_counts idx) a 0"
    and "dict_get (attribute title_word_counts idx) a 0
          \<le> (1 + unit_roundoff) ^ (length title_word_counts + 1)
               * dict_get (attribute_exact title_word_counts idx) a 0"
    by (simp_all add: close_to_def)
  from attribute_sum_close_to [OF h]
  show "(1 - unit_roundoff) ^ (length title_word_counts + 1)
            * of_int (sum_list (map snd
                (filter (\<lambda>tw. dict_get idx (PInt (fst tw)) [] \<noteq> []) title_word_counts)))
          \<le> sum_list (map snd (attribute title_word_counts idx))"
    and "sum_list (map snd (attribute title_word_counts idx))
          \<le> (1 + unit_roundoff) ^ (length title_word_counts + 1)
               * of_int (sum_list (map snd
                   (filter (\<lambda>tw. dict_get idx (PInt (fst tw)) [] \<noteq> []) title_word_counts)))"
    by (simp_all add: close_to_def)
  show "map fst (attribute title_word_counts idx)
            = map fst (attribute_exact title_word_counts idx)"
    unfolding attribute_def attribute_exact_def by (rule keys_fold_attribute) simp
qed

text \<open>
  Title 7 with 900 words and the owners A, B and C, and title 5 with 100 words and no
  owner.
\<close>

theorem attribute_conservation_witness:
  "attribute_title [(PInt 7, [''A'', ''B'', ''C''])] (5, 100) [(''A'', 5)] = [(''A'', 5)]
   \<and> dict_get (attribute_title [(PInt 7, [''A'', ''B'', ''C''])] (7, 900) [(''A'', 5)]) ''A'' 0
       = fadd 5 (fdiv 900 3)
   \<and> (1 - unit_roundoff) ^ 3 * 900
       \<le> sum_list (map snd (attribute [(7, 900), (5, 100)] [(PInt 7, [''A'', ''B'', ''C''])]))
   \<and> sum_list (map snd (attribute [(7, 900), (5, 100)] [(PInt 7, [''A'', ''B'', ''C''])]))
       \<le> (1 + unit_roundoff) ^ 3 * 900"
proof -
  let ?idx = "[(PInt 7, [''A'', ''B'', ''C''])]"
  let ?twc = "[(7 :: int, 900 :: int), (5, 100)]"
  have o7: "dict_get ?idx (PInt 7) [] = [''A'', ''B'', ''C'']"
    and o5: "dict_get ?idx (PInt 5) [] = []"
    and g: "dict_get [(''A'', 5 :: rat)] ''A'' 0 = 5"
    by (simp_all add: dict_get_def)
  have 1: "attribute_title ?idx (5, 100) [(''A'', 5)] = [(''A'', 5)]"
    using attribute_conservation [where idx = ?idx and t = 5 and wc = 100
        and acc = "[(''A'', 5)]", THEN conjunct1] o5
    by blast
  have 2: "dict_get (attribute_title ?idx (7, 900) [(''A'', 5)]) ''A'' 0 = fadd 5 (fdiv 900 3)"
    using attribute_conservation [where idx = ?idx and t = 7 and wc = 900
        and acc = "[(''A'', 5)]" and a = "''A''", THEN conjunct2, THEN conjunct1]
    unfolding o7 g by simp
  have h: "\<forall>tw \<in> set ?twc. distinct (dict_get ?idx (PInt (fst tw)) []) \<and> 0 \<le> snd tw"
    by (simp add: o7 o5)
  have f: "of_int (sum_list (map snd
             (filter (\<lambda>tw. dict_get ?idx (PInt (fst tw)) [] \<noteq> []) ?twc))) = (900 :: rat)"
    by (simp add: o7 o5)
  have n: "length ?twc + 1 = 3" by simp
  from attribute_conservation [where idx = ?idx and title_word_counts = ?twc,
        THEN conjunct2, THEN conjunct2, THEN conjunct2, THEN conjunct2, THEN conjunct1, THEN mp, OF h]
  have 3: "(1 - unit_roundoff) ^ 3 * 900 \<le> sum_list (map snd (attribute ?twc ?idx))"
    and 4: "sum_list (map snd (attribute ?twc ?idx)) \<le> (1 + unit_roundoff) ^ 3 * 900"
    unfolding f n by blast+
  from 1 2 3 4 show ?thesis by (intro conjI)
qed

text \<open>
  The counterexample: one title of one word with ten owners. Each owner receives the
  double nearest to 0.1, which is larger than 0.1, and the ten totals add up to more
  than 1; added up as doubles, as Python's \<^verbatim>\<open>sum\<close> does, they give
  0.9999999999999999.
\<close>

theorem attribute_rounding_counterexample:
  "dict_get (attribute [(7, 1)]
       [(PInt 7, [''A0'', ''A1'', ''A2'', ''A3'', ''A4'', ''A5'', ''A6'', ''A7'', ''A8'', ''A9''])])
     ''A0'' 0 = 3602879701896397 / 36028797018963968
   \<and> sum_list (map snd (attribute [(7, 1)]
       [(PInt 7, [''A0'', ''A1'', ''A2'', ''A3'', ''A4'', ''A5'', ''A6'', ''A7'', ''A8'', ''A9''])]))
     = 18014398509481985 / 18014398509481984
   \<and> fold (\<lambda>x total. fadd total x) (map snd (attribute [(7, 1)]
       [(PInt 7, [''A0'', ''A1'', ''A2'', ''A3'', ''A4'', ''A5'', ''A6'', ''A7'', ''A8'', ''A9''])])) 0
     = 9007199254740991 / 9007199254740992"
  by code_simp

section \<open>The word counter is total\<close>

text \<open>
  Claim C6. \<open>count_words_in_xml\<close> gives 0 for \<open>None\<close> and for the empty text, and 2 for
  \<^verbatim>\<open><a>hello world</a>\<close> (whether the parser gives its text or fails). When the parser
  gives a text, the result is the number of maximal runs of word characters in it; when
  the parser fails, it is the number of such runs in the text in which every tag is
  replaced by one space. That replacement leaves a text without \<^verbatim>\<open><\<close> and a text without
  \<^verbatim>\<open>>\<close> as they are; it writes one space for the first \<^verbatim>\<open><\<close>, the characters other than
  \<^verbatim>\<open>>\<close> that follow it (at least one) and the \<^verbatim>\<open>>\<close> after them, and goes on behind that
  \<^verbatim>\<open>>\<close>; and it copies a \<^verbatim>\<open><\<close> that is followed by \<^verbatim>\<open>>\<close> at once. So the unclosed
  \<^verbatim>\<open><a>hello\<close> counts 1 and \<^verbatim>\<open>x<b>y\<close> counts 2. The list of words found has as many
  elements as there are maximal runs, each of them a non-empty run of word characters,
  and the result is never negative. The parser and the alphanumeric characters beyond
  ASCII are parameters, so this holds for every parser and every such set.
\<close>

theorem count_words_in_xml_contract:
  "count_words_in_xml libs None = 0
   \<and> count_words_in_xml libs (Some []) = 0
   \<and> (soup_get_text libs (ascii ''<a>hello world</a>'') = Some (ascii ''hello world'')
        \<or> soup_get_text libs (ascii ''<a>hello world</a>'') = None
        \<longrightarrow> count_words_in_xml libs (Some (ascii ''<a>hello world</a>'')) = 2)
   \<and> (soup_get_text libs s = Some t \<and> s \<noteq> [] \<longrightarrow>
        count_words_in_xml libs (Some s) = int (run_starts (unicode_alnum libs) t))
   \<and> (soup_get_text libs s = None \<longrightarrow>
        count_words_in_xml libs (Some s) = int (run_starts (unicode_alnum libs) (sub_tags s)))
   \<and> (60 \<notin> set s \<longrightarrow> sub_tags s = s)
   \<and> (62 \<notin> set s \<longrightarrow> sub_tags s = s)
   \<and> (60 \<notin> set pre \<and> body \<noteq> [] \<and> 62 \<notin> set body \<longrightarrow>
        sub_tags (pre @ 60 # body @ 62 # rest) = pre @ 32 # sub_tags rest)
   \<and> (60 \<notin> set pre \<longrightarrow> sub_tags (pre @ 60 # 62 # rest) = pre @ 60 # 62 # sub_tags rest)
   \<and> (soup_get_text libs (ascii ''<a>hello'') = None \<longrightarrow>
        count_words_in_xml libs (Some (ascii ''<a>hello'')) = 1)
   \<and> (soup_get_text libs (ascii ''x<b>y'') = None \<longrightarrow>
        count_words_in_xml libs (Some (ascii ''x<b>y'')) = 2)
   \<and> length (findall_words alnum s) = run_starts alnum s
   \<and> (\<forall>w \<in> set (findall_words alnum s). w \<noteq> [] \<and> (\<forall>c \<in> set w. word_char alnum c))
   \<and> 0 \<le> count_words_in_xml libs c"
proof (intro conjI impI ballI)
  show "count_words_in_xml libs None = 0"
    by (simp add: count_words_in_xml_def)
  show "count_words_in_xml libs (Some []) = 0"
    by (simp add: count_words_in_xml_def)
  show "0 \<le> count_words_in_xml libs c"
    by (rule count_words_in_xml_nonneg)
  show "length (findall_words alnum s) = run_starts alnum s"
    by (rule length_findall_words)
next
  assume "soup_get_text libs (ascii ''<a>hello world</a>'') = Some (ascii ''hello world'')
        \<or> soup_get_text libs (ascii ''<a>hello world</a>'') = None"
  then show "count_words_in_xml libs (Some (ascii ''<a>hello world</a>'')) = 2"
    by (auto simp: count_words_in_xml_def word_char_def ascii_def)
next
  assume "soup_get_text libs s = Some t \<and> s \<noteq> []"
  then show "count_words_in_xml libs (Some s) = int (run_starts (unicode_alnum libs) t)"
    by (simp add: count_words_in_xml_def length_findall_words)
next
  assume "soup_get_text libs s = None"
  then show "count_words_in_xml libs (Some s)
               = int (run_starts (unicode_alnum libs) (sub_tags s))"
    by (simp add: count_words_in_xml_def length_findall_words run_starts_def
          run_starts_from_Nil)
next
  assume "60 \<notin> set s"
  then show "sub_tags s = s" by (rule sub_tags_no_open)
next
  assume "62 \<notin> set s"
  then show "sub_tags s = s" by (rule sub_tags_no_close)
next
  assume "60 \<notin> set pre \<and> body \<noteq> [] \<and> 62 \<notin> set body"
  then show "sub_tags (pre @ 60 # body @ 62 # rest) = pre @ 32 # sub_tags rest"
    by (simp add: sub_tags_tag)
next
  assume "60 \<notin> set pre"
  then show "sub_tags (pre @ 60 # 62 # rest) = pre @ 60 # 62 # sub_tags rest"
    by (rule sub_tags_empty_tag)
next
  assume "soup_get_text libs (ascii ''<a>hello'') = None"
  then show "count_words_in_xml libs (Some (ascii ''<a>hello'')) = 1"
    by (simp add: count_words_in_xml_def word_char_def ascii_def)
next
  assume "soup_get_text libs (ascii ''x<b>y'') = None"
  then show "count_words_in_xml libs (Some (ascii ''x<b>y'')) = 2"
    by (simp add: count_words_in_xml_def word_char_def ascii_def)
next
  fix w assume "w \<in> set (findall_words alnum s)"
  then have w: "w \<noteq> [] \<and> (\<forall>c \<in> set w. word_char alnum c)"
    by (rule findall_words_runs)
  from w show "w \<noteq> []" by simp
  fix c assume "c \<in> set w"
  with w show "word_char alnum c" by simp
qed

text \<open>
  With a parser that always fails: the tag of \<^verbatim>\<open>x<b>y\<close> separates two words, and the text
  of the code points 97, 233, 98 is one word where 233 is alphanumeric (as it is in
  Unicode) and two words where it is not.
\<close>

theorem count_words_in_xml_contract_witness:
  "count_words_in_xml \<lparr>soup_get_text = \<lambda>x. None, unicode_alnum = \<lambda>c. c = 233\<rparr>
       (Some (ascii ''x<b>y'')) = 2
   \<and> count_words_in_xml \<lparr>soup_get_text = \<lambda>x. None, unicode_alnum = \<lambda>c. c = 233\<rparr>
       (Some [97, 233, 98]) = 1
   \<and> count_words_in_xml \<lparr>soup_get_text = \<lambda>x. None, unicode_alnum = \<lambda>c. False\<rparr>
       (Some [97, 233, 98]) = 2
   \<and> count_words_in_xml \<lparr>soup_get_text = \<lambda>x. Some (ascii ''hello world''),
                           unicode_alnum = \<lambda>c. False\<rparr>
       (Some (ascii ''<a>hello world</a>'')) = 2
   \<and> sub_tags (ascii ''a <b>c</b> <d'') = ascii ''a  c  <d''"
proof -
  let ?l1 = "\<lparr>soup_get_text = \<lambda>x. None, unicode_alnum = \<lambda>c. c = 233\<rparr>"
  let ?l0 = "\<lparr>soup_get_text = \<lambda>x. None, unicode_alnum = \<lambda>c. False\<rparr>"
  let ?l2 = "\<lparr>soup_get_text = \<lambda>x. Some (ascii ''hello world''),
              unicode_alnum = \<lambda>c. False\<rparr>"
  note ev = run_starts_def run_starts_from_Cons run_starts_from_Nil word_char_def ascii_def
  have 1: "count_words_in_xml ?l1 (Some (ascii ''x<b>y'')) = 2"
    using count_words_in_xml_contract [where libs = ?l1, THEN conjunct2, THEN conjunct2, THEN conjunct2, THEN conjunct2, THEN conjunct2, THEN conjunct2, THEN conjunct2, THEN conjunct2, THEN conjunct2, THEN conjunct2, THEN conjunct1]
    by simp
  have 2: "count_words_in_xml ?l1 (Some [97, 233, 98]) = 1"
    using count_words_in_xml_contract [where libs = ?l1 and s = "[97, 233, 98]",
        THEN conjunct2, THEN conjunct2, THEN conjunct2, THEN conjunct2, THEN conjunct1]
    by (simp add: ev)
  have 3: "count_words_in_xml ?l0 (Some [97, 233, 98]) = 2"
    using count_words_in_xml_contract [where libs = ?l0 and s = "[97, 233, 98]",
        THEN conjunct2, THEN conjunct2, THEN conjunct2, THEN conjunct2, THEN conjunct1]
    by (simp add: ev)
  have 4: "count_words_in_xml ?l2 (Some (ascii ''<a>hello world</a>'')) = 2"
    using count_words_in_xml_contract [where libs = ?l2, THEN conjunct2, THEN conjunct2, THEN conjunct1]
    by simp
  have "sub_tags (ascii ''a '' @ 60 # ascii ''b'' @ 62 # ascii ''c</b> <d'')
          = ascii ''a '' @ 32 # sub_tags (ascii ''c</b> <d'')"
    using count_words_in_xml_contract [where pre = "ascii ''a ''" and body = "ascii ''b''"
        and rest = "ascii ''c</b> <d''", THEN conjunct2, THEN conjunct2, THEN conjunct2, THEN conjunct2, THEN conjunct2, THEN conjunct2, THEN conjunct2, THEN conjunct1]
    by (simp add: ascii_def)
  then have 5: "sub_tags (ascii ''a <b>c</b> <d'') = ascii ''a  c  <d''"
    by (simp add: ascii_def)
  from 1 2 3 4 5 show ?thesis by (intro conjI)
qed

section \<open>The ownership index stops at the children\<close>

text \<open>
  Claim C2 says that the index records the references of every agency at any depth.
  \<open>create_agency_title_mapping\<close> visits the agencies of the list and their children, and
  no agency below those. For a department with a bureau that has an office, the office
  is offered by \<open>collect_agency_names\<close>, which does descend, and the index holds the
  department and the bureau only: title 3 of the office is recorded nowhere.
\<close>

theorem create_agency_title_mapping_grandchild:
  "''Office'' \<in> set (collect_agency_names
       [Agency ''Department'' ''dept'' [Some (PInt 1)]
          [Agency ''Bureau'' ''bureau'' [Some (PInt 2)]
             [Agency ''Office'' ''office'' [Some (PInt 3)] []]]])
   \<and> create_agency_title_mapping
       [Agency ''Department'' ''dept'' [Some (PInt 1)]
          [Agency ''Bureau'' ''bureau'' [Some (PInt 2)]
             [Agency ''Office'' ''office'' [Some (PInt 3)] []]]]
     = [(''Department'', [PInt 1]), (''Bureau'', [PInt 2])]"
  by (simp add: create_agency_title_mapping_def add_references_def add_title_def dict_get_def
      set_add_def)

section \<open>Cache keys that leave parameters out\<close>

text \<open>
  Claim C4 says that two requests that differ in a parameter never share a cache key.
  The key of the time-series tab holds neither the selected agencies nor the request
  delay, and the key of the composition tab holds no request delay and writes a space
  of the agency name as an underscore. So a time-series request for one agency with a
  delay of 0.2 s and another for a different agency with a delay of 2 s have the same
  key, and so have the composition requests for the agencies \<^verbatim>\<open>A B\<close> and \<^verbatim>\<open>A_B\<close>.
\<close>

theorem cache_key_collisions:
  "wordcount_time_cache_key
     \<lparr>max_titles = 5, target_date = Date 2025 1 1, skip_problematic_titles = True,
      request_timeout = 240, throttle_delay = 1 / 5, cache_results = True\<rparr>
     2022 2024 [''Agency One'']
   = ''wordcount_time_2022_2024_5_2025-01-01_True_240''
   \<and> wordcount_time_cache_key
     \<lparr>max_titles = 5, target_date = Date 2025 1 1, skip_problematic_titles = True,
      request_timeout = 240, throttle_delay = 2, cache_results = True\<rparr>
     2022 2024 [''Agency Two'']
   = ''wordcount_time_2022_2024_5_2025-01-01_True_240''
   \<and> agency_composition_cache_key
     \<lparr>max_titles = 5, target_date = Date 2025 1 1, skip_problematic_titles = True,
      request_timeout = 240, throttle_delay = 1 / 5, cache_results = True\<rparr> ''A B''
   = ''agency_composition_A_B_2025-01-01_True_240''
   \<and> agency_composition_cache_key
     \<lparr>max_titles = 5, target_date = Date 2025 1 1, skip_problematic_titles = True,
      request_timeout = 240, throttle_delay = 2, cache_results = True\<rparr> ''A_B''
   = ''agency_composition_A_B_2025-01-01_True_240''"
  by (simp add: wordcount_time_cache_key_def agency_composition_cache_key_def
      replace_spaces_def str_int_def str_nat.simps digit_char_def str_date_def zfill_def
      str_bool_def)

section \<open>Reserved titles are never fetched\<close>

text \<open>
  Claim C8. A reserved title is passed over before anything is done for it: the loop
  body returns the state as it was. So for a title number \<open>n\<close> that only reserved titles
  of the list bear, in the loop of the snapshot and of each year of the time series, in
  the whole time series, in the composition analysis and in the whole snapshot, \<open>n\<close> is
  no key of the word-count dictionary, no call of \<open>get_title_content\<close> is made for \<open>n\<close>,
  and no request for a text of \<open>n\<close> is sent, whatever the dates, the configuration and
  the session cache. The per-agency totals of the snapshot and of a year are computed
  from that word-count dictionary alone.
\<close>

theorem reserved_titles_never_fetched:
  assumes res: "\<forall>t \<in> set titles_info. number t = n \<longrightarrow> reserved t"
  shows "(reserved ti \<longrightarrow>
            process_title up cfg libs target fr ti st = st
            \<and> process_title_composition up cfg libs target ti st = st)
    \<and> n \<notin> fst ` set (word_counts (process_titles up cfg libs target fr cap titles_info s))
    \<and> (\<forall>e \<in> set (fetched (process_titles up cfg libs target fr cap titles_info s)). fst e \<noteq> n)
    \<and> (\<forall>d. TitleXml n d \<notin> set (drop (length (requests_log s))
               (requests_log (sess (process_titles up cfg libs target fr cap titles_info s)))))
    \<and> (\<forall>d. TitleXml n d \<notin> set (drop (length (requests_log s))
               (requests_log (snd (calculate_word_counts_over_time up cfg libs agencies
                                     titles_info years cap s)))))
    \<and> n \<notin> fst ` set (comp_title_word_counts
               (fst (composition up cfg libs agencies titles_info selected s)))
    \<and> (\<forall>e \<in> set (comp_fetched (fst (composition up cfg libs agencies titles_info selected s))).
          fst e \<noteq> n)
    \<and> (\<forall>d. TitleXml n d \<notin> set (drop (length (requests_log s))
               (requests_log (snd (composition up cfg libs agencies titles_info selected s)))))
    \<and> (res_titles_info (fst (snapshot_compute up da dt cfg libs s)) = titles_info \<longrightarrow>
          n \<notin> fst ` set (res_title_word_counts
                 (fst (snapshot_compute up da dt cfg libs s)))
          \<and> (\<forall>d. TitleXml n d \<notin> set (drop (length (requests_log s))
                 (requests_log (snd (snapshot_compute up da dt cfg libs s))))))
    \<and> res_agency_word_counts (fst (snapshot_compute up da dt cfg libs s))
        = attribute (res_title_word_counts (fst (snapshot_compute up da dt cfg libs s)))
            (reverse_mapping (create_agency_title_mapping
               (res_agencies (fst (snapshot_compute up da dt cfg libs s)))))
    \<and> fst (year_word_counts up cfg libs idx titles_info cap year s)
        = attribute (word_counts (snd (year_word_counts up cfg libs idx titles_info cap year s)))
            idx"
proof -
  let ?st = "process_titles up cfg libs target fr cap titles_info s"
  let ?c = "composition up cfg libs agencies titles_info selected s"
  have step: "reserved ti \<longrightarrow>
            process_title up cfg libs target fr ti st = st
            \<and> process_title_composition up cfg libs target ti st = st"
    by (simp add: process_title_def process_title_composition_def)
  have ok1: "run_ok libs ?st" by (rule process_titles_run_ok)
  have from1: "run_from titles_info target s ?st" by (rule process_titles_run_from)
  note snap = run_from_reserved [OF res ok1 from1]
  have ok2: "run_ok libs (composition_run ?c)" by (rule composition_run_ok)
  have from2: "run_from titles_info (target_date cfg) s (composition_run ?c)"
    by (rule composition_run_from)
  note comp = run_from_reserved [OF res ok2 from2]
  obtain new where new: "requests_log (snd (calculate_word_counts_over_time up cfg libs agencies
                                     titles_info years cap s)) = requests_log s @ new"
    and unres: "\<forall>r \<in> set new. unreserved_request titles_info r"
    using calculate_word_counts_over_time_requests by blast
  have "TitleXml n d \<notin> set new" for d
  proof
    assume "TitleXml n d \<in> set new"
    with unres have "unreserved_request titles_info (TitleXml n d)" by blast
    then obtain t where "t \<in> set titles_info" "\<not> reserved t" "number t = n"
      unfolding unreserved_request_def by auto
    with res show False by blast
  qed
  then have years: "\<forall>d. TitleXml n d \<notin> set (drop (length (requests_log s))
               (requests_log (snd (calculate_word_counts_over_time up cfg libs agencies
                                     titles_info years cap s))))"
    by (simp add: new)
  have snapc: "res_titles_info (fst (snapshot_compute up da dt cfg libs s)) = titles_info \<longrightarrow>
          n \<notin> fst ` set (res_title_word_counts
                 (fst (snapshot_compute up da dt cfg libs s)))
          \<and> (\<forall>d. TitleXml n d \<notin> set (drop (length (requests_log s))
                 (requests_log (snd (snapshot_compute up da dt cfg libs s)))))"
  proof
    assume eq: "res_titles_info (fst (snapshot_compute up da dt cfg libs s)) = titles_info"
    with res have "\<forall>t \<in> set (res_titles_info (fst (snapshot_compute up da dt cfg libs s))).
                  number t = n \<longrightarrow> reserved t"
      by simp
    from snapshot_compute_reserved [OF this]
    show "n \<notin> fst ` set (res_title_word_counts
                 (fst (snapshot_compute up da dt cfg libs s)))
          \<and> (\<forall>d. TitleXml n d \<notin> set (drop (length (requests_log s))
                 (requests_log (snd (snapshot_compute up da dt cfg libs s)))))"
      by blast
  qed
  have totals: "res_agency_word_counts (fst (snapshot_compute up da dt cfg libs s))
        = attribute (res_title_word_counts (fst (snapshot_compute up da dt cfg libs s)))
            (reverse_mapping (create_agency_title_mapping
               (res_agencies (fst (snapshot_compute up da dt cfg libs s)))))"
    by (simp add: snapshot_compute_def Let_def split: prod.splits)
  have year_totals: "fst (year_word_counts up cfg libs idx titles_info cap year s)
        = attribute (word_counts (snd (year_word_counts up cfg libs idx titles_info cap year s)))
            idx"
    by (simp add: year_word_counts_def Let_def)
  show ?thesis
    using step snap comp years snapc totals year_totals by (simp add: composition_run_def)
qed

theorem reserved_titles_never_fetched_witness:
  "35 \<notin> fst ` set (word_counts
         (process_titles (\<lambda>i r. Response 200 (ascii ''<p>one two</p>''))
            \<lparr>max_titles = 5, target_date = Date 2025 1 1, skip_problematic_titles = False,
             request_timeout = 240, throttle_delay = 1 / 5, cache_results = True\<rparr>
            \<lparr>soup_get_text = \<lambda>x. None, unicode_alnum = \<lambda>c. False\<rparr> (Date 2025 1 1) False 5
            [\<lparr>number = 1, title_name = ''General Provisions'',
              latest_amended_on = Date 2024 6 1, reserved = False\<rparr>,
             \<lparr>number = 35, title_name = ''Reserved'',
              latest_amended_on = Date 2024 1 1, reserved = True\<rparr>] fresh_session))
   \<and> requests_log (sess
         (process_titles (\<lambda>i r. Response 200 (ascii ''<p>one two</p>''))
            \<lparr>max_titles = 5, target_date = Date 2025 1 1, skip_problematic_titles = False,
             request_timeout = 240, throttle_delay = 1 / 5, cache_results = True\<rparr>
            \<lparr>soup_get_text = \<lambda>x. None, unicode_alnum = \<lambda>c. False\<rparr> (Date 2025 1 1) False 5
            [\<lparr>number = 1, title_name = ''General Provisions'',
              latest_amended_on = Date 2024 6 1, reserved = False\<rparr>,
             \<lparr>number = 35, title_name = ''Reserved'',
              latest_amended_on = Date 2024 1 1, reserved = True\<rparr>] fresh_session))
       = [TitleXml 1 (Date 2024 6 1)]"
  using reserved_titles_never_fetched
    [of "[\<lparr>number = 1, title_name = ''General Provisions'',
              latest_amended_on = Date 2024 6 1, reserved = False\<rparr>,
             \<lparr>number = 35, title_name = ''Reserved'',
              latest_amended_on = Date 2024 1 1, reserved = True\<rparr>]" 35]
  by (simp add: process_titles_def start_run_def process_title_def
       get_title_content_def fetch_title.simps send_def fresh_session_def use_date_def
       date_less_def problematic_titles_def truthy_def count_words_in_xml_def word_char_def ascii_def)

section \<open>Which titles enter the word-count dictionary\<close>



section \<open>The skip list\<close>

text \<open>
  Claim C3 says that a title on the skip list gives \<open>None\<close> for any cache state, the skip
  check coming before the cache lookup. In \<open>get_title_content\<close> the cache lookup comes
  first. As amended: with skipping on, for a title of the skip list no request is ever
  sent, for any date, retry limit and session; the result is \<open>None\<close> and the session is
  unchanged when the cache is not consulted (forced refresh, or caching off) or holds no
  text for the title and date, and it is the cached text when the cache is consulted
  and holds one. When the cache is not consulted or holds no text of the title for any
  date, the title is no key of the word-count dictionary after the loop of the snapshot
  or time series, nor after the composition analysis.
\<close>

theorem skip_list_behaviour:
  assumes skip: "skip_problematic_titles cfg" "n \<in> set problematic_titles"
  shows "requests_log (snd (get_title_content up cfg n d mr fr s)) = requests_log s
   \<and> (fr \<or> \<not> cache_results cfg \<or> title_content_cache s (n, d) = None
        \<longrightarrow> get_title_content up cfg n d mr fr s = (None, s))
   \<and> (\<not> fr \<and> cache_results cfg \<and> title_content_cache s (n, d) \<noteq> None
        \<longrightarrow> get_title_content up cfg n d mr fr s = (title_content_cache s (n, d), s))
   \<and> (fr \<or> \<not> cache_results cfg \<or> (\<forall>d'. title_content_cache s (n, d') = None)
        \<longrightarrow> n \<notin> fst ` set (word_counts
                (process_titles up cfg libs target fr cap titles_info s)))
   \<and> (\<not> cache_results cfg \<or> (\<forall>d'. title_content_cache s (n, d') = None)
        \<longrightarrow> n \<notin> fst ` set (comp_title_word_counts
                (fst (composition up cfg libs agencies titles_info selected s))))"
proof (intro conjI impI)
  show "requests_log (snd (get_title_content up cfg n d mr fr s)) = requests_log s"
    using skip by (simp add: get_title_content_def)
next
  assume "fr \<or> \<not> cache_results cfg \<or> title_content_cache s (n, d) = None"
  then show "get_title_content up cfg n d mr fr s = (None, s)"
    by (rule get_title_content_skipped [OF skip])
next
  assume "\<not> fr \<and> cache_results cfg \<and> title_content_cache s (n, d) \<noteq> None"
  then show "get_title_content up cfg n d mr fr s = (title_content_cache s (n, d), s)"
    by (simp add: get_title_content_def)
next
  assume a: "fr \<or> \<not> cache_results cfg \<or> (\<forall>d'. title_content_cache s (n, d') = None)"
  let ?b = "fr \<or> \<not> cache_results cfg"
  let ?st = "process_titles up cfg libs target fr cap titles_info s"
  from a have "run_without ?b n (start_run s)"
    by (auto simp: run_without_def start_run_def)
  then have "run_without ?b n ?st"
    unfolding process_titles_def by (intro fold_run_without [OF skip])
  with process_titles_run_ok show "n \<notin> fst ` set (word_counts ?st)"
    by (rule run_without_no_key)
next
  assume a: "\<not> cache_results cfg \<or> (\<forall>d'. title_content_cache s (n, d') = None)"
  let ?c = "composition up cfg libs agencies titles_info selected s"
  from a have start: "run_without (\<not> cache_results cfg) n (start_run s)"
    by (auto simp: run_without_def start_run_def)
  have "run_without (\<not> cache_results cfg) n (composition_run ?c)"
    unfolding composition_run_eq
    using start composition_loop_run_without [OF skip start] by simp
  with composition_run_ok have "n \<notin> fst ` set (word_counts (composition_run ?c))"
    by (rule run_without_no_key)
  then show "n \<notin> fst ` set (comp_title_word_counts (fst ?c))"
    by (simp add: composition_run_def)
qed

theorem skip_list_behaviour_witness:
  "get_title_content (\<lambda>i r. Response 200 (ascii ''<p>one two</p>''))
      \<lparr>max_titles = 5, target_date = Date 2025 1 1, skip_problematic_titles = True,
       request_timeout = 240, throttle_delay = 1 / 5, cache_results = True\<rparr>
      42 (Date 2024 6 1) 1 False fresh_session = (None, fresh_session)
   \<and> word_counts (process_titles (\<lambda>i r. Response 200 (ascii ''<p>one two</p>''))
      \<lparr>max_titles = 5, target_date = Date 2025 1 1, skip_problematic_titles = True,
       request_timeout = 240, throttle_delay = 1 / 5, cache_results = True\<rparr>
      \<lparr>soup_get_text = \<lambda>x. None, unicode_alnum = \<lambda>c. False\<rparr> (Date 2025 1 1) False 5
      [\<lparr>number = 41, title_name = ''Public Contracts'',
        latest_amended_on = Date 2024 6 1, reserved = False\<rparr>,
       \<lparr>number = 42, title_name = ''Public Health'',
        latest_amended_on = Date 2024 6 1, reserved = False\<rparr>] fresh_session) = [(41, 2)]"
  using skip_list_behaviour
    [of "\<lparr>max_titles = 5, target_date = Date 2025 1 1, skip_problematic_titles = True,
       request_timeout = 240, throttle_delay = 1 / 5, cache_results = True\<rparr>" 42
       "\<lambda>i r. Response 200 (ascii ''<p>one two</p>'')" "Date 2024 6 1" 1 False fresh_session]
  by (simp add: process_titles_def start_run_def process_title_def
       get_title_content_def fetch_title.simps send_def fresh_session_def use_date_def
       date_less_def problematic_titles_def truthy_def count_words_in_xml_def word_char_def ascii_def)

text \<open>
  The counterexample: title 42 is fetched once with skipping off, which caches its text;
  with skipping on, the same call then returns the cached text, and the loop enters
  title 42 in the word-count dictionary.
\<close>

theorem skip_list_after_cache_counterexample:
  "fst (get_title_content (\<lambda>i r. Response 200 (ascii ''<p>one two</p>''))
      \<lparr>max_titles = 5, target_date = Date 2025 1 1, skip_problematic_titles = True,
       request_timeout = 240, throttle_delay = 1 / 5, cache_results = True\<rparr>
      42 (Date 2024 6 1) 1 False
      (snd (get_title_content (\<lambda>i r. Response 200 (ascii ''<p>one two</p>''))
         \<lparr>max_titles = 5, target_date = Date 2025 1 1, skip_problematic_titles = False,
          request_timeout = 240, throttle_delay = 1 / 5, cache_results = True\<rparr>
         42 (Date 2024 6 1) 1 False fresh_session)))
     = Some (ascii ''<p>one two</p>'')
   \<and> word_counts (process_titles (\<lambda>i r. Response 200 (ascii ''<p>one two</p>''))
      \<lparr>max_titles = 5, target_date = Date 2025 1 1, skip_problematic_titles = True,
       request_timeout = 240, throttle_delay = 1 / 5, cache_results = True\<rparr>
      \<lparr>soup_get_text = \<lambda>x. None, unicode_alnum = \<lambda>c. False\<rparr> (Date 2025 1 1) False 5
      [\<lparr>number = 42, title_name = ''Public Health'',
        latest_amended_on = Date 2024 6 1, reserved = False\<rparr>]
      (snd (get_title_content (\<lambda>i r. Response 200 (ascii ''<p>one two</p>''))
         \<lparr>max_titles = 5, target_date = Date 2025 1 1, skip_problematic_titles = False,
          request_timeout = 240, throttle_delay = 1 / 5, cache_results = True\<rparr>
         42 (Date 2024 6 1) 1 False fresh_session))) = [(42, 2)]"
  by (simp add: process_titles_def start_run_def process_title_def
       get_title_content_def fetch_title.simps send_def fresh_session_def use_date_def
       date_less_def problematic_titles_def truthy_def count_words_in_xml_def word_char_def ascii_def)

section \<open>The scope of the composition analysis\<close>

text \<open>
  Claim C7 says that the composition analysis never processes a title the agency does
  not own. When no title of the catalog matches the agency's set, the code falls back to
  the first ten titles of the catalog. As amended: the analysis does not depend on
  \<open>max_titles\<close>, and it calls \<open>get_title_content\<close> once for each title it selects that is
  not reserved, in the order of selection, and for nothing else: no prefix is cut off,
  and every key of the word-count dictionary is the number of such a title. When at
  least one title of the catalog is owned (its number, as a string, is the string of an
  element of the agency's set), every title selected is a title of the catalog that is
  owned, and every call is for an owned title number; the titles selected are then
  exactly the owned titles of the catalog, when the set holds strings only, and also
  when it holds integers only and the numbers of the catalog are distinct. When no title
  of the catalog is owned, the titles selected are the first ten of the catalog.
\<close>

theorem composition_scope:
  "composition up (cfg\<lparr>max_titles := k\<rparr>) libs agencies titles_info selected s
     = composition up cfg libs agencies titles_info selected s
   \<and> map (\<lambda>e. (fst e, fst (snd e)))
         (comp_fetched (fst (composition up cfg libs agencies titles_info selected s)))
     = (if dict_get (create_agency_title_mapping agencies) selected [] = [] then []
        else map (\<lambda>t. (number t, use_date (target_date cfg) (latest_amended_on t)))
               (filter (\<lambda>t. \<not> reserved t)
                  (relevant_titles titles_info
                     (dict_get (create_agency_title_mapping agencies) selected []))))
   \<and> fst ` set (comp_title_word_counts
                  (fst (composition up cfg libs agencies titles_info selected s)))
       \<subseteq> number ` {t \<in> set (relevant_titles titles_info
                                (dict_get (create_agency_title_mapping agencies) selected [])).
                     \<not> reserved t}
   \<and> ((\<exists>t \<in> set titles_info. owned tfa (number t)) \<longrightarrow>
         (\<forall>t \<in> set (relevant_titles titles_info tfa). t \<in> set titles_info \<and> owned tfa (number t)))
   \<and> ((\<exists>t \<in> set titles_info.
          owned (dict_get (create_agency_title_mapping agencies) selected []) (number t)) \<longrightarrow>
         (\<forall>e \<in> set (comp_fetched
                      (fst (composition up cfg libs agencies titles_info selected s))).
            owned (dict_get (create_agency_title_mapping agencies) selected []) (fst e)))
   \<and> ((\<forall>v \<in> set tfa. \<exists>x. v = PStr x) \<and> (\<exists>t \<in> set titles_info. owned tfa (number t)) \<longrightarrow>
         relevant_titles titles_info tfa = filter (\<lambda>t. owned tfa (number t)) titles_info)
   \<and> ((\<forall>v \<in> set tfa. \<exists>i. v = PInt i) \<and> distinct (map number titles_info)
        \<and> (\<exists>t \<in> set titles_info. owned tfa (number t)) \<longrightarrow>
         set (relevant_titles titles_info tfa)
           = {t \<in> set titles_info. owned tfa (number t)})
   \<and> (\<not> (\<exists>t \<in> set titles_info. owned tfa (number t)) \<longrightarrow>
         relevant_titles titles_info tfa = take 10 titles_info)"
proof (intro conjI impI ballI)
  show "composition up (cfg\<lparr>max_titles := k\<rparr>) libs agencies titles_info selected s
     = composition up cfg libs agencies titles_info selected s"
    by (rule composition_max_titles)
next
  show "map (\<lambda>e. (fst e, fst (snd e)))
         (comp_fetched (fst (composition up cfg libs agencies titles_info selected s)))
     = (if dict_get (create_agency_title_mapping agencies) selected [] = [] then []
        else map (\<lambda>t. (number t, use_date (target_date cfg) (latest_amended_on t)))
               (filter (\<lambda>t. \<not> reserved t)
                  (relevant_titles titles_info
                     (dict_get (create_agency_title_mapping agencies) selected []))))"
    by (rule composition_fetched_exact)
next
  show "fst ` set (comp_title_word_counts
                  (fst (composition up cfg libs agencies titles_info selected s)))
       \<subseteq> number ` {t \<in> set (relevant_titles titles_info
                                (dict_get (create_agency_title_mapping agencies) selected [])).
                     \<not> reserved t}"
    by (rule composition_keys_subset)
next
  fix t assume "\<exists>t \<in> set titles_info. owned tfa (number t)"
    and "t \<in> set (relevant_titles titles_info tfa)"
  then show "t \<in> set titles_info" "owned tfa (number t)"
    using set_relevant_titles [of titles_info tfa] relevant_titles_owned [of titles_info tfa t]
    by blast+
next
  fix e
  assume "\<exists>t \<in> set titles_info.
          owned (dict_get (create_agency_title_mapping agencies) selected []) (number t)"
    and "e \<in> set (comp_fetched (fst (composition up cfg libs agencies titles_info selected s)))"
  then show "owned (dict_get (create_agency_title_mapping agencies) selected []) (fst e)"
    by (rule composition_fetched_owned)
next
  assume "(\<forall>v \<in> set tfa. \<exists>x. v = PStr x) \<and> (\<exists>t \<in> set titles_info. owned tfa (number t))"
  then show "relevant_titles titles_info tfa = filter (\<lambda>t. owned tfa (number t)) titles_info"
    using relevant_titles_strs [of tfa titles_info] by blast
next
  assume a: "(\<forall>v \<in> set tfa. \<exists>i. v = PInt i) \<and> distinct (map number titles_info)
        \<and> (\<exists>t \<in> set titles_info. owned tfa (number t))"
  have o: "owned tfa n \<longleftrightarrow> PInt n \<in> set tfa" for n
  proof
    assume "owned tfa n"
    then obtain v where v: "v \<in> set tfa" "str_int n = py_str v" unfolding owned_def by blast
    from a v(1) obtain i where "v = PInt i" by blast
    with v show "PInt n \<in> set tfa" by (auto dest: str_int_inj)
  next
    assume "PInt n \<in> set tfa"
    moreover have "str_int n = py_str (PInt n)" by simp
    ultimately show "owned tfa n" unfolding owned_def by blast
  qed
  from a show "set (relevant_titles titles_info tfa)
           = {t \<in> set titles_info. owned tfa (number t)}"
    unfolding o using relevant_titles_ints [of tfa titles_info] by blast
next
  assume "\<not> (\<exists>t \<in> set titles_info. owned tfa (number t))"
  then show "relevant_titles titles_info tfa = take 10 titles_info"
    by (rule relevant_titles_fallback)
qed

text \<open>
  An agency that refers to titles 12 and 3, with a catalog of titles 1, 3 and 12: titles
  12 and 3 are fetched, title 1 is not. And an agency whose only reference is to a title
  that the catalog does not hold.
\<close>

theorem composition_scope_witness:
  "map fst (comp_fetched (fst (composition (\<lambda>i r. Response 200 (ascii ''<p>one two</p>''))
        \<lparr>max_titles = 1, target_date = Date 2025 1 1, skip_problematic_titles = True,
         request_timeout = 240, throttle_delay = 1 / 5, cache_results = True\<rparr>
        \<lparr>soup_get_text = \<lambda>x. None, unicode_alnum = \<lambda>c. False\<rparr>
        [Agency ''Board'' ''board'' [Some (PInt 12), Some (PInt 3)] []]
        [\<lparr>number = 1, title_name = ''General Provisions'',
          latest_amended_on = Date 2024 6 1, reserved = False\<rparr>,
         \<lparr>number = 3, title_name = ''The President'',
          latest_amended_on = Date 2024 6 1, reserved = False\<rparr>,
         \<lparr>number = 12, title_name = ''Banks and Banking'',
          latest_amended_on = Date 2024 6 1, reserved = False\<rparr>]
        ''Board'' fresh_session))) = [12, 3]
   \<and> set (relevant_titles
         [\<lparr>number = 1, title_name = ''General Provisions'',
           latest_amended_on = Date 2024 6 1, reserved = False\<rparr>,
          \<lparr>number = 3, title_name = ''The President'',
           latest_amended_on = Date 2024 6 1, reserved = False\<rparr>,
          \<lparr>number = 12, title_name = ''Banks and Banking'',
           latest_amended_on = Date 2024 6 1, reserved = False\<rparr>]
         [PInt 12, PInt 3])
     = {t \<in> set [\<lparr>number = 1, title_name = ''General Provisions'',
           latest_amended_on = Date 2024 6 1, reserved = False\<rparr>,
          \<lparr>number = 3, title_name = ''The President'',
           latest_amended_on = Date 2024 6 1, reserved = False\<rparr>,
          \<lparr>number = 12, title_name = ''Banks and Banking'',
           latest_amended_on = Date 2024 6 1, reserved = False\<rparr>].
        owned [PInt 12, PInt 3] (number t)}
   \<and> relevant_titles
         [\<lparr>number = 1, title_name = ''General Provisions'',
           latest_amended_on = Date 2024 6 1, reserved = False\<rparr>,
          \<lparr>number = 3, title_name = ''The President'',
           latest_amended_on = Date 2024 6 1, reserved = False\<rparr>]
         [PInt 99]
     = take 10 [\<lparr>number = 1, title_name = ''General Provisions'',
           latest_amended_on = Date 2024 6 1, reserved = False\<rparr>,
          \<lparr>number = 3, title_name = ''The President'',
           latest_amended_on = Date 2024 6 1, reserved = False\<rparr>]"
proof -
  let ?up = "\<lambda>(i :: nat) (r :: request). Response 200 (ascii ''<p>one two</p>'')"
  let ?cfg = "\<lparr>max_titles = 1, target_date = Date 2025 1 1, skip_problematic_titles = True,
         request_timeout = 240, throttle_delay = 1 / 5, cache_results = True\<rparr>"
  let ?libs = "\<lparr>soup_get_text = \<lambda>x. None, unicode_alnum = \<lambda>c. False\<rparr>"
  let ?ags = "[Agency ''Board'' ''board'' [Some (PInt 12), Some (PInt 3)] []]"
  let ?t3 = "[\<lparr>number = 1, title_name = ''General Provisions'',
           latest_amended_on = Date 2024 6 1, reserved = False\<rparr>,
          \<lparr>number = 3, title_name = ''The President'',
           latest_amended_on = Date 2024 6 1, reserved = False\<rparr>,
          \<lparr>number = (12::int), title_name = ''Banks and Banking'',
           latest_amended_on = Date 2024 6 1, reserved = False\<rparr>]"
  let ?t2 = "[\<lparr>number = 1, title_name = ''General Provisions'',
           latest_amended_on = Date 2024 6 1, reserved = False\<rparr>,
          \<lparr>number = (3::int), title_name = ''The President'',
           latest_amended_on = Date 2024 6 1, reserved = False\<rparr>]"
  have tfa: "dict_get (create_agency_title_mapping ?ags) ''Board'' [] = [PInt 12, PInt 3]"
    by (simp add: create_agency_title_mapping_def add_references_def add_title_def
          dict_get_def set_add_def)
  have rel: "relevant_titles ?t3 [PInt 12, PInt 3]
               = [\<lparr>number = 12, title_name = ''Banks and Banking'',
                   latest_amended_on = Date 2024 6 1, reserved = False\<rparr>,
                  \<lparr>number = 3, title_name = ''The President'',
                   latest_amended_on = Date 2024 6 1, reserved = False\<rparr>]"
    by (simp add: relevant_titles_def str_int_def str_nat.simps digit_char_def)
  have "map (\<lambda>e. (fst e, fst (snd e)))
          (comp_fetched (fst (composition ?up ?cfg ?libs ?ags ?t3 ''Board'' fresh_session)))
        = [(12, Date 2024 6 1), (3, Date 2024 6 1)]"
    using composition_scope [where up = ?up and cfg = ?cfg and libs = ?libs and agencies = ?ags
        and titles_info = ?t3 and selected = "''Board''" and s = fresh_session,
        THEN conjunct2, THEN conjunct1]
    unfolding tfa rel by (simp add: use_date_def date_less_def)
  then have "map fst (map (\<lambda>e. (fst e, fst (snd e)))
          (comp_fetched (fst (composition ?up ?cfg ?libs ?ags ?t3 ''Board'' fresh_session))))
        = [12, 3]"
    by (simp only: list.map fst_conv)
  then have 1: "map fst (comp_fetched (fst (composition ?up ?cfg ?libs ?ags ?t3 ''Board''
                   fresh_session))) = [12, 3]"
    by (simp add: comp_def)
  have own: "\<exists>t \<in> set ?t3. owned [PInt 12, PInt 3] (number t)"
    by (simp add: owned_def str_int_def str_nat.simps digit_char_def)
  have ints: "\<forall>v \<in> set [PInt 12, PInt 3]. \<exists>i. v = PInt i" by simp
  have dist: "distinct (map number ?t3)" by simp
  have 2: "set (relevant_titles ?t3 [PInt 12, PInt 3])
             = {t \<in> set ?t3. owned [PInt 12, PInt 3] (number t)}"
    using composition_scope [where titles_info = ?t3 and tfa = "[PInt 12, PInt 3]"]
      own ints dist by blast
  have none: "\<not> (\<exists>t \<in> set ?t2. owned [PInt 99] (number t))"
    by (simp add: owned_def str_int_def str_nat.simps digit_char_def)
  have 3: "relevant_titles ?t2 [PInt 99] = take 10 ?t2"
    using composition_scope [where titles_info = ?t2 and tfa = "[PInt 99]"] none by blast
  from 1 2 3 show ?thesis by (intro conjI)
qed

text \<open>
  The counterexample: an agency whose only reference is to title 99, and a catalog that
  holds titles 1 and 3. The analysis fetches and counts titles 1 and 3.
\<close>

theorem composition_fallback_counterexample:
  "dict_get (create_agency_title_mapping [Agency ''Board'' ''board'' [Some (PInt 99)] []])
     ''Board'' [] = [PInt 99]
   \<and> map fst (comp_fetched (fst (composition (\<lambda>i r. Response 200 (ascii ''<p>one two</p>''))
        \<lparr>max_titles = 5, target_date = Date 2025 1 1, skip_problematic_titles = True,
         request_timeout = 240, throttle_delay = 1 / 5, cache_results = True\<rparr>
        \<lparr>soup_get_text = \<lambda>x. None, unicode_alnum = \<lambda>c. False\<rparr>
        [Agency ''Board'' ''board'' [Some (PInt 99)] []]
        [\<lparr>number = 1, title_name = ''General Provisions'',
          latest_amended_on = Date 2024 6 1, reserved = False\<rparr>,
         \<lparr>number = 3, title_name = ''The President'',
          latest_amended_on = Date 2024 6 1, reserved = False\<rparr>]
        ''Board'' fresh_session))) = [1, 3]
   \<and> comp_title_word_counts (fst (composition (\<lambda>i r. Response 200 (ascii ''<p>one two</p>''))
        \<lparr>max_titles = 5, target_date = Date 2025 1 1, skip_problematic_titles = True,
         request_timeout = 240, throttle_delay = 1 / 5, cache_results = True\<rparr>
        \<lparr>soup_get_text = \<lambda>x. None, unicode_alnum = \<lambda>c. False\<rparr>
        [Agency ''Board'' ''board'' [Some (PInt 99)] []]
        [\<lparr>number = 1, title_name = ''General Provisions'',
          latest_amended_on = Date 2024 6 1, reserved = False\<rparr>,
         \<lparr>number = 3, title_name = ''The President'',
          latest_amended_on = Date 2024 6 1, reserved = False\<rparr>]
        ''Board'' fresh_session)) = [(1, 2), (3, 2)]"
  by (simp add: composition_def relevant_titles_def create_agency_title_mapping_def
       add_references_def add_title_def dict_get_def set_add_def
       str_int_def str_nat.simps digit_char_def
       start_run_def process_title_composition_def
       get_title_content_def fetch_title.simps send_def fresh_session_def use_date_def
       date_less_def problematic_titles_def truthy_def count_words_in_xml_def word_char_def ascii_def)

section \<open>The percentages of the composition table\<close>

text \<open>
  Claim C9 says that each percentage is the word count divided by the total, times 100,
  and that the column sums to 100 up to floating-point error. The code stores the share
  rounded to two decimal places. As amended: the total is the sum of the word counts
  obtained, none of which is negative, and the row of a title holds its word count.
  When the total is positive, the percentage stored is \<^verbatim>\<open>round((wc / total) * 100, 2)\<close>,
  computed in doubles; it differs from the exact share by at most
  \<open>0.005 + 401 * unit_roundoff\<close>, the exact shares sum to 100, and so the column sums to
  100 up to that bound times the number of rows. When the total is not positive, every
  percentage is 0. Rounding a double \<open>x\<close> to two places changes it by at most
  \<open>0.005 + (\<bar>x\<bar> + 0.005) * unit_roundoff\<close>.
\<close>

theorem composition_percentages:
  "comp_total_words (fst (composition up cfg libs agencies titles_info selected s))
     = sum_list (map snd (comp_title_word_counts
         (fst (composition up cfg libs agencies titles_info selected s))))
   \<and> comp_rows (fst (composition up cfg libs agencies titles_info selected s))
     = composition_data titles_info (comp_title_word_counts
         (fst (composition up cfg libs agencies titles_info selected s)))
   \<and> (\<forall>p \<in> set (comp_title_word_counts
                    (fst (composition up cfg libs agencies titles_info selected s))).
         0 \<le> snd p)
   \<and> (0 < comp_total_words (fst (composition up cfg libs agencies titles_info selected s)) \<longrightarrow>
        \<bar>sum_list (map row_percentage
            (comp_rows (fst (composition up cfg libs agencies titles_info selected s)))) - 100\<bar>
          \<le> of_nat (length
               (comp_rows (fst (composition up cfg libs agencies titles_info selected s))))
             * (1 / 200 + 401 * unit_roundoff))
   \<and> (comp_total_words (fst (composition up cfg libs agencies titles_info selected s)) \<le> 0 \<longrightarrow>
        (\<forall>row \<in> set (comp_rows (fst (composition up cfg libs agencies titles_info selected s))).
           row_percentage row = 0))
   \<and> map row_word_count (composition_data titles_info twc) = map snd twc
   \<and> map row_percentage (composition_data titles_info twc)
       = map (\<lambda>tw. py_round2 (if sum_list (map snd twc) > 0
                               then fmul (fdiv (of_int (snd tw))
                                            (of_int (sum_list (map snd twc)))) 100
                               else 0)) twc
   \<and> (0 < sum_list (map snd twc) \<and> (\<forall>tw \<in> set twc. 0 \<le> snd tw) \<longrightarrow>
        (\<forall>tw \<in> set twc.
           \<bar>py_round2 (fmul (fdiv (of_int (snd tw)) (of_int (sum_list (map snd twc)))) 100)
              - share (sum_list (map snd twc)) (snd tw)\<bar> \<le> 1 / 200 + 401 * unit_roundoff)
        \<and> sum_list (map (\<lambda>tw. share (sum_list (map snd twc)) (snd tw)) twc) = 100
        \<and> \<bar>sum_list (map row_percentage (composition_data titles_info twc)) - 100\<bar>
            \<le> of_nat (length twc) * (1 / 200 + 401 * unit_roundoff))
   \<and> (sum_list (map snd twc) \<le> 0 \<longrightarrow>
        (\<forall>row \<in> set (composition_data titles_info twc). row_percentage row = 0))
   \<and> \<bar>py_round2 x - x\<bar> \<le> 1 / 200 + (\<bar>x\<bar> + 1 / 200) * unit_roundoff
   \<and> \<bar>fmul x y - x * y\<bar> \<le> \<bar>x * y\<bar> * unit_roundoff"
proof -
  let ?c = "fst (composition up cfg libs agencies titles_info selected s)"
  have total: "comp_total_words ?c = sum_list (map snd (comp_title_word_counts ?c))"
    by (simp add: composition_def Let_def)
  have rows: "comp_rows ?c = composition_data titles_info (comp_title_word_counts ?c)"
  proof -
    have "composition_data titles_info [] = []"
      by (simp add: composition_data_def)
    then show ?thesis by (simp add: composition_def Let_def)
  qed
  have nn: "\<forall>p \<in> set (comp_title_word_counts ?c). 0 \<le> snd p"
    by (rule composition_nonneg)
  have zero: "sum_list (map snd twc) \<le> 0 \<longrightarrow>
        (\<forall>row \<in> set (composition_data titles_info twc). row_percentage row = 0)" for twc
    by (auto simp: composition_data_def Let_def py_round2_0)
  have len: "length (composition_data titles_info twc) = length twc" for twc
    by (simp add: composition_data_def Let_def)
  have pos: "0 < comp_total_words ?c \<longrightarrow>
        \<bar>sum_list (map row_percentage (comp_rows ?c)) - 100\<bar>
          \<le> of_nat (length (comp_rows ?c)) * (1 / 200 + 401 * unit_roundoff)"
    unfolding rows len total using composition_data_sum [OF _ nn] by blast
  have zero': "comp_total_words ?c \<le> 0 \<longrightarrow>
        (\<forall>row \<in> set (comp_rows ?c). row_percentage row = 0)"
    unfolding rows total by (rule zero)
  have gen: "0 < sum_list (map snd twc) \<and> (\<forall>tw \<in> set twc. 0 \<le> snd tw) \<longrightarrow>
        (\<forall>tw \<in> set twc.
           \<bar>py_round2 (fmul (fdiv (of_int (snd tw)) (of_int (sum_list (map snd twc)))) 100)
              - share (sum_list (map snd twc)) (snd tw)\<bar> \<le> 1 / 200 + 401 * unit_roundoff)
        \<and> sum_list (map (\<lambda>tw. share (sum_list (map snd twc)) (snd tw)) twc) = 100
        \<and> \<bar>sum_list (map row_percentage (composition_data titles_info twc)) - 100\<bar>
            \<le> of_nat (length twc) * (1 / 200 + 401 * unit_roundoff)"
  proof (intro impI conjI)
    assume a: "0 < sum_list (map snd twc) \<and> (\<forall>tw \<in> set twc. 0 \<le> snd tw)"
    then have T: "0 < sum_list (map snd twc)" and n: "\<forall>tw \<in> set twc. 0 \<le> snd tw" by simp_all
    show "\<forall>tw \<in> set twc.
           \<bar>py_round2 (fmul (fdiv (of_int (snd tw)) (of_int (sum_list (map snd twc)))) 100)
              - share (sum_list (map snd twc)) (snd tw)\<bar> \<le> 1 / 200 + 401 * unit_roundoff"
      using T n by (rule composition_data_error)
    show "sum_list (map (\<lambda>tw. share (sum_list (map snd twc)) (snd tw)) twc) = 100"
      using T by (intro sum_shares) simp
    show "\<bar>sum_list (map row_percentage (composition_data titles_info twc)) - 100\<bar>
            \<le> of_nat (length twc) * (1 / 200 + 401 * unit_roundoff)"
      using T n by (rule composition_data_sum)
  qed
  have mul: "\<bar>fmul x y - x * y\<bar> \<le> \<bar>x * y\<bar> * unit_roundoff"
    using fl_error [of "x * y"] by (simp add: fmul_def unit_roundoff_def)
  from total rows nn pos zero' composition_data_word_count [of titles_info twc]
    composition_data_percentage [of titles_info twc] gen zero [of twc] py_round2_error [of x] mul
  show ?thesis by (intro conjI)
qed

text \<open>
  Two titles of 73 and 87 words, and one title without a word.
\<close>

theorem composition_percentages_witness:
  "\<bar>sum_list (map row_percentage (composition_data [] [(1, 73), (2, 87)])) - 100\<bar>
     \<le> 2 * (1 / 200 + 401 * unit_roundoff)
   \<and> row_percentage (hd (composition_data [] [(1, 0)])) = 0"
proof -
  have pos: "0 < sum_list (map snd [(1 :: int, 73 :: int), (2, 87)])
               \<and> (\<forall>tw \<in> set [(1 :: int, 73 :: int), (2, 87)]. 0 \<le> snd tw)" by simp
  have "\<bar>sum_list (map row_percentage (composition_data [] [(1, 73), (2, 87)])) - 100\<bar>
          \<le> of_nat (length [(1 :: int, 73 :: int), (2, 87)]) * (1 / 200 + 401 * unit_roundoff)"
    using composition_percentages [where titles_info = "[]" and twc = "[(1, 73), (2, 87)]"] pos
    by blast
  then have 1: "\<bar>sum_list (map row_percentage (composition_data [] [(1, 73), (2, 87)])) - 100\<bar>
          \<le> 2 * (1 / 200 + 401 * unit_roundoff)"
    by simp
  have zero: "sum_list (map snd [(1 :: int, 0 :: int)]) \<le> 0" by simp
  have mem: "hd (composition_data [] [(1, 0)]) \<in> set (composition_data [] [(1, 0)])"
    by (simp add: composition_data_def)
  have 2: "row_percentage (hd (composition_data [] [(1, 0)])) = 0"
    using composition_percentages [where titles_info = "[]" and twc = "[(1, 0)]"] zero mem
    by blast
  from 1 2 show ?thesis by (rule conjI)
qed

text \<open>
  The counterexample: an agency with three titles of two words each, all fetched without
  error. Each row holds the double nearest to 33.33, and the column sums to less than
  99.99.
\<close>

theorem composition_percentages_counterexample:
  "comp_title_fetch_errors (fst (composition (\<lambda>i r. Response 200 (ascii ''<p>one two</p>''))
        \<lparr>max_titles = 5, target_date = Date 2025 1 1, skip_problematic_titles = True,
         request_timeout = 240, throttle_delay = 1 / 5, cache_results = True\<rparr>
        \<lparr>soup_get_text = \<lambda>x. None, unicode_alnum = \<lambda>c. False\<rparr>
        [Agency ''Board'' ''board'' [Some (PInt 1), Some (PInt 2), Some (PInt 3)] []]
        [\<lparr>number = 1, title_name = ''General Provisions'',
          latest_amended_on = Date 2024 6 1, reserved = False\<rparr>,
         \<lparr>number = 2, title_name = ''Grants and Agreements'',
          latest_amended_on = Date 2024 6 1, reserved = False\<rparr>,
         \<lparr>number = 3, title_name = ''The President'',
          latest_amended_on = Date 2024 6 1, reserved = False\<rparr>]
        ''Board'' fresh_session)) = []
   \<and> map row_percentage (comp_rows (fst (composition (\<lambda>i r. Response 200 (ascii ''<p>one two</p>''))
        \<lparr>max_titles = 5, target_date = Date 2025 1 1, skip_problematic_titles = True,
         request_timeout = 240, throttle_delay = 1 / 5, cache_results = True\<rparr>
        \<lparr>soup_get_text = \<lambda>x. None, unicode_alnum = \<lambda>c. False\<rparr>
        [Agency ''Board'' ''board'' [Some (PInt 1), Some (PInt 2), Some (PInt 3)] []]
        [\<lparr>number = 1, title_name = ''General Provisions'',
          latest_amended_on = Date 2024 6 1, reserved = False\<rparr>,
         \<lparr>number = 2, title_name = ''Grants and Agreements'',
          latest_amended_on = Date 2024 6 1, reserved = False\<rparr>,
         \<lparr>number = 3, title_name = ''The President'',
          latest_amended_on = Date 2024 6 1, reserved = False\<rparr>]
        ''Board'' fresh_session))) = [2345390243441541 / 70368744177664, 2345390243441541 / 70368744177664,
           2345390243441541 / 70368744177664]
   \<and> sum_list (map row_percentage (comp_rows (fst (composition (\<lambda>i r. Response 200 (ascii ''<p>one two</p>''))
        \<lparr>max_titles = 5, target_date = Date 2025 1 1, skip_problematic_titles = True,
         request_timeout = 240, throttle_delay = 1 / 5, cache_results = True\<rparr>
        \<lparr>soup_get_text = \<lambda>x. None, unicode_alnum = \<lambda>c. False\<rparr>
        [Agency ''Board'' ''board'' [Some (PInt 1), Some (PInt 2), Some (PInt 3)] []]
        [\<lparr>number = 1, title_name = ''General Provisions'',
          latest_amended_on = Date 2024 6 1, reserved = False\<rparr>,
         \<lparr>number = 2, title_name = ''Grants and Agreements'',
          latest_amended_on = Date 2024 6 1, reserved = False\<rparr>,
         \<lparr>number = 3, title_name = ''The President'',
          latest_amended_on = Date 2024 6 1, reserved = False\<rparr>]
        ''Board'' fresh_session)))) = 7036170730324623 / 70368744177664"
proof -
  have r: "py_round2 (fmul (fdiv 2 6) 100) = 2345390243441541 / 70368744177664"
    by code_simp
  show ?thesis
  by (simp add: composition_def relevant_titles_def create_agency_title_mapping_def
       add_references_def add_title_def dict_get_def set_add_def
       str_int_def str_nat.simps digit_char_def composition_data_def r
       start_run_def process_title_composition_def
       get_title_content_def fetch_title.simps send_def fresh_session_def use_date_def
       date_less_def problematic_titles_def truthy_def count_words_in_xml_def word_char_def ascii_def)
qed

section \<open>Caching and the snapshot\<close>

text \<open>
  Claim C5 says that the snapshot gives the same tables with caching off as with
  caching on. The session cache of title texts is consulted before the skip list, so a
  text cached while skipping was off is used by a later run with skipping on and caching
  on, and not by the same run with caching off. As amended, for an upstream that never
  changes: running the snapshot a second time with the same configuration, in the
  session the first run left, gives the same result as the first run, in every session
  and with caching on or off; in a session where \<^verbatim>\<open>cache_key\<close> is absent and the caches
  hold what an uncached call would return now (\<open>session_agrees\<close>: the lists and texts of
  the upstream, and no text of a title that the skip list now excludes), the run with
  caching off gives the same result as the run with caching on, and the run with
  caching on leaves such a session again; the snapshot never writes \<^verbatim>\<open>cache_key\<close>; and a
  fresh session is such a session. The result is the agencies, the titles, the word
  counts by title and the totals by agency, from which the tables are computed.
\<close>

theorem snapshot_caching:
  assumes imm: "immutable up"
  shows "fst (snapshot up da dt cfg libs (snd (snapshot up da dt cfg libs s)))
           = fst (snapshot up da dt cfg libs s)
   \<and> (cache_results cfg \<and> \<not> analysis_marks s (agency_analysis_key cfg)
        \<and> session_agrees up da dt cfg s \<longrightarrow>
        fst (snapshot up da dt (cfg\<lparr>cache_results := False\<rparr>) libs s)
          = fst (snapshot up da dt cfg libs s)
        \<and> session_agrees up da dt cfg (snd (snapshot up da dt cfg libs s)))
   \<and> analysis_marks (snd (snapshot up da dt cfg libs s)) = analysis_marks s
   \<and> session_agrees up da dt cfg fresh_session
   \<and> \<not> analysis_marks fresh_session (agency_analysis_key cfg)"
proof (intro conjI impI)
  let ?sc = "snapshot_compute up da dt cfg libs"
  note v = snapshot_compute_by_views [OF imm, where da = da and dt = dt and cfg = cfg
      and libs = libs]
  show marks: "analysis_marks (snd (snapshot up da dt cfg libs s)) = analysis_marks s"
    using v(5) [of s] by (auto simp add: snapshot_def split: prod.splits)
  show "fst (snapshot up da dt cfg libs (snd (snapshot up da dt cfg libs s)))
           = fst (snapshot up da dt cfg libs s)"
  proof (cases "cache_results cfg \<and> analysis_marks s (agency_analysis_key cfg)")
    case True
    then have "snapshot up da dt cfg libs s = (analysis_results s (agency_analysis_key cfg), s)"
      by (simp add: snapshot_def)
    then show ?thesis by simp
  next
    case False
    then have 1: "snapshot up da dt cfg libs s = (Some (fst (?sc s)), snd (?sc s))"
      by (auto simp add: snapshot_def split: prod.splits)
    have "\<not> (cache_results cfg \<and> analysis_marks (snd (?sc s)) (agency_analysis_key cfg))"
      using False v(5) [of s] by simp
    then have 2: "snapshot up da dt cfg libs (snd (?sc s))
                    = (Some (fst (?sc (snd (?sc s)))), snd (?sc (snd (?sc s))))"
      by (auto simp add: snapshot_def split: prod.splits)
    have "fst (?sc (snd (?sc s))) = fst (?sc s)"
      unfolding v(1) [of "snd (?sc s)"] v(1) [of s] v(2) [of s] v(3) [of s] v(4) [of s]
      by (rule refl)
    then show ?thesis by (simp add: 1 2)
  qed
  show "session_agrees up da dt cfg fresh_session"
    by (simp add: session_agrees_def fresh_session_def)
  show "\<not> analysis_marks fresh_session (agency_analysis_key cfg)"
    by (simp add: fresh_session_def)
next
  assume a: "cache_results cfg \<and> \<not> analysis_marks s (agency_analysis_key cfg)
        \<and> session_agrees up da dt cfg s"
  let ?off = "cfg\<lparr>cache_results := False\<rparr>"
  note v = snapshot_compute_by_views [OF imm, where da = da and dt = dt and libs = libs]
  from a have on: "cache_results cfg" and miss: "\<not> analysis_marks s (agency_analysis_key cfg)"
    and ag: "session_agrees up da dt cfg s" by blast+
  from ag have views: "title_view up cfg s = uncached_content up cfg"
      "agencies_view up da cfg s = upstream_list up AgenciesJson da"
      "titles_view up dt cfg s = upstream_list up TitlesJson dt"
    unfolding session_agrees_views [OF on] by blast+
  have off: "\<not> cache_results ?off" by simp
  have 1: "snapshot up da dt cfg libs s
             = (Some (fst (snapshot_compute up da dt cfg libs s)),
                snd (snapshot_compute up da dt cfg libs s))"
    using miss by (simp add: snapshot_def split: prod.splits)
  have 2: "snapshot up da dt ?off libs s
             = (Some (fst (snapshot_compute up da dt ?off libs s)),
                snd (snapshot_compute up da dt ?off libs s))"
    by (simp add: snapshot_def split: prod.splits)
  have "fst (snapshot_compute up da dt ?off libs s)
          = fst (snapshot_compute up da dt cfg libs s)"
    unfolding v(1) [of ?off s] v(1) [of cfg s] views views_uncached [OF off]
      uncached_content_cache_results
    by simp
  then show "fst (snapshot up da dt ?off libs s) = fst (snapshot up da dt cfg libs s)"
    by (simp add: 1 2)
  have "title_view up cfg (snd (snapshot_compute up da dt cfg libs s)) = uncached_content up cfg"
    "agencies_view up da cfg (snd (snapshot_compute up da dt cfg libs s))
       = upstream_list up AgenciesJson da"
    "titles_view up dt cfg (snd (snapshot_compute up da dt cfg libs s))
       = upstream_list up TitlesJson dt"
    using views v(2) [of cfg s] v(3) [of cfg s] v(4) [of cfg s] by simp_all
  then have "session_agrees up da dt cfg (snd (snapshot_compute up da dt cfg libs s))"
    unfolding session_agrees_views [OF on] by blast
  then show "session_agrees up da dt cfg (snd (snapshot up da dt cfg libs s))"
    by (simp add: 1)
qed

theorem snapshot_caching_witness:
  "fst (snapshot (\<lambda>i r. Response 200 (ascii ''<p>one two</p>''))
         (\<lambda>body. Some [Agency ''Department of Health'' ''hhs'' [Some (PInt 42)] []])
         (\<lambda>body. Some [\<lparr>number = 42, title_name = ''Public Health'',
                          latest_amended_on = Date 2024 6 1, reserved = False\<rparr>])
         (\<lparr>max_titles = 5, target_date = Date 2025 1 1, skip_problematic_titles = False,
           request_timeout = 240, throttle_delay = 1 / 5, cache_results = True\<rparr>
          \<lparr>cache_results := False\<rparr>)
         \<lparr>soup_get_text = \<lambda>x. None, unicode_alnum = \<lambda>c. False\<rparr> fresh_session)
   = fst (snapshot (\<lambda>i r. Response 200 (ascii ''<p>one two</p>''))
         (\<lambda>body. Some [Agency ''Department of Health'' ''hhs'' [Some (PInt 42)] []])
         (\<lambda>body. Some [\<lparr>number = 42, title_name = ''Public Health'',
                          latest_amended_on = Date 2024 6 1, reserved = False\<rparr>])
         \<lparr>max_titles = 5, target_date = Date 2025 1 1, skip_problematic_titles = False,
          request_timeout = 240, throttle_delay = 1 / 5, cache_results = True\<rparr>
         \<lparr>soup_get_text = \<lambda>x. None, unicode_alnum = \<lambda>c. False\<rparr> fresh_session)"
proof -
  have imm: "immutable (\<lambda>i r. Response 200 (ascii ''<p>one two</p>''))"
    by (simp add: immutable_def)
  show ?thesis
    using snapshot_caching [OF imm,
      of "\<lambda>body. Some [Agency ''Department of Health'' ''hhs'' [Some (PInt 42)] []]"
         "\<lambda>body. Some [\<lparr>number = 42, title_name = ''Public Health'',
                          latest_amended_on = Date 2024 6 1, reserved = False\<rparr>]"
         "\<lparr>max_titles = 5, target_date = Date 2025 1 1, skip_problematic_titles = False,
          request_timeout = 240, throttle_delay = 1 / 5, cache_results = True\<rparr>"
         "\<lparr>soup_get_text = \<lambda>x. None, unicode_alnum = \<lambda>c. False\<rparr>" fresh_session]
    by simp
qed

text \<open>
  The counterexample: a first snapshot with skipping off fetches title 42 and caches its
  text. In the session it leaves, the snapshot with skipping on counts title 42 with
  caching on, and counts nothing with caching off.
\<close>

theorem snapshot_caching_counterexample:
  "map_option res_title_word_counts
     (fst (snapshot (\<lambda>i r. Response 200 (ascii ''<p>one two</p>''))
         (\<lambda>body. Some [Agency ''Department of Health'' ''hhs'' [Some (PInt 42)] []])
         (\<lambda>body. Some [\<lparr>number = 42, title_name = ''Public Health'',
                          latest_amended_on = Date 2024 6 1, reserved = False\<rparr>])
         \<lparr>max_titles = 5, target_date = Date 2025 1 1, skip_problematic_titles = True,
          request_timeout = 240, throttle_delay = 1 / 5, cache_results = True\<rparr>
         \<lparr>soup_get_text = \<lambda>x. None, unicode_alnum = \<lambda>c. False\<rparr>
         (snd (snapshot (\<lambda>i r. Response 200 (ascii ''<p>one two</p>''))
            (\<lambda>body. Some [Agency ''Department of Health'' ''hhs'' [Some (PInt 42)] []])
            (\<lambda>body. Some [\<lparr>number = 42, title_name = ''Public Health'',
                             latest_amended_on = Date 2024 6 1, reserved = False\<rparr>])
            \<lparr>max_titles = 5, target_date = Date 2025 1 1, skip_problematic_titles = False,
             request_timeout = 240, throttle_delay = 1 / 5, cache_results = True\<rparr>
            \<lparr>soup_get_text = \<lambda>x. None, unicode_alnum = \<lambda>c. False\<rparr> fresh_session))))
     = Some [(42, 2)]
   \<and> map_option res_title_word_counts
     (fst (snapshot (\<lambda>i r. Response 200 (ascii ''<p>one two</p>''))
         (\<lambda>body. Some [Agency ''Department of Health'' ''hhs'' [Some (PInt 42)] []])
         (\<lambda>body. Some [\<lparr>number = 42, title_name = ''Public Health'',
                          latest_amended_on = Date 2024 6 1, reserved = False\<rparr>])
         \<lparr>max_titles = 5, target_date = Date 2025 1 1, skip_problematic_titles = True,
          request_timeout = 240, throttle_delay = 1 / 5, cache_results = False\<rparr>
         \<lparr>soup_get_text = \<lambda>x. None, unicode_alnum = \<lambda>c. False\<rparr>
         (snd (snapshot (\<lambda>i r. Response 200 (ascii ''<p>one two</p>''))
            (\<lambda>body. Some [Agency ''Department of Health'' ''hhs'' [Some (PInt 42)] []])
            (\<lambda>body. Some [\<lparr>number = 42, title_name = ''Public Health'',
                             latest_amended_on = Date 2024 6 1, reserved = False\<rparr>])
            \<lparr>max_titles = 5, target_date = Date 2025 1 1, skip_problematic_titles = False,
             request_timeout = 240, throttle_delay = 1 / 5, cache_results = True\<rparr>
            \<lparr>soup_get_text = \<lambda>x. None, unicode_alnum = \<lambda>c. False\<rparr> fresh_session))))
     = Some []"
  by (simp add: snapshot_def snapshot_compute_def get_agencies_def get_titles_def
       agency_analysis_key_def Let_def
       process_titles_def start_run_def process_title_def
       get_title_content_def fetch_title.simps send_def fresh_session_def use_date_def
       date_less_def problematic_titles_def truthy_def count_words_in_xml_def word_char_def ascii_def)

end
